theory Spec2Isabelle
  imports Main "HOL-Library.Word"
begin

section \<open>Values shared by the reqx package\<close>

text \<open>
  Go's \<^verbatim>\<open>time.Time\<close> is an instant; \<^verbatim>\<open>Before\<close> on two instants without a monotonic
  reading (every cached expiration is one: it comes from \<^verbatim>\<open>time.Time{}\<close> or from a JWT
  numeric date) compares them on the time line, and \<^verbatim>\<open>t.Add(d)\<close> moves \<^verbatim>\<open>t\<close> by the
  duration \<^verbatim>\<open>d\<close>. An instant is modelled as its distance in nanoseconds from the zero
  instant \<^verbatim>\<open>time.Time{}\<close> (January 1 of year 1, UTC), a duration as a number of
  nanoseconds.
\<close>

type_synonym time = int
type_synonym duration = int

definition time_zero :: time where
  "time_zero = 0"

definition time_Before :: "time \<Rightarrow> time \<Rightarrow> bool" where
  "time_Before t u = (t < u)"

definition time_Add :: "time \<Rightarrow> duration \<Rightarrow> time" where
  "time_Add t d = t + d"

text \<open>A non-nil Go \<^verbatim>\<open>error\<close> carries its message; \<^verbatim>\<open>nil\<close> is \<open>None\<close>.\<close>

datatype error = Error string

text \<open>\<^verbatim>\<open>cred.Identity\<close>: the credential handed to the refresh function.\<close>

record Identity =
  User :: string
  Secret :: string

text \<open>
  What the package takes from outside the repository, as one record of capabilities:
  \<^item> \<open>Now\<close> is \<^verbatim>\<open>time.Now()\<close>, a read of the clock of the world \<open>'w\<close>;
  \<^item> \<open>ParseUnverified\<close> is \<^verbatim>\<open>jwtParser.ParseUnverified(tokenString, jwt.MapClaims{})\<close>
    (parsed token and error), \<open>Claims_MapClaims\<close> the type assertion
    \<^verbatim>\<open>parsedToken.Claims.(jwt.MapClaims)\<close> (\<open>None\<close> when \<^verbatim>\<open>ok\<close> is false) and
    \<open>GetExpirationTime\<close> is \<^verbatim>\<open>claims.GetExpirationTime()\<close> (a numeric date or
    \<^verbatim>\<open>nil\<close>, and an error);
  \<^item> \<open>runes\<close> is the sequence of runes a \<^verbatim>\<open>range\<close> loop over a string yields and
    \<open>unicode_IsSpace\<close> is \<^verbatim>\<open>unicode.IsSpace\<close>.
\<close>

record ('w, 't, 'c) runtime =
  Now :: "'w \<Rightarrow> time \<times> 'w"
  ParseUnverified :: "string \<Rightarrow> 't \<times> error option"
  Claims_MapClaims :: "'t \<Rightarrow> 'c option"
  GetExpirationTime :: "'c \<Rightarrow> time option \<times> error option"
  runes :: "string \<Rightarrow> nat list"
  unicode_IsSpace :: "nat \<Rightarrow> bool"

section \<open>stringsx.IsBlank\<close>

text \<open>
  \<^verbatim>\<open>asciiSpace = [256]uint8{'\t': 1, '\n': 1, '\v': 1, '\f': 1, '\r': 1, ' ': 1}\<close>;
  a Go string is a sequence of bytes, here a \<open>string\<close> of 8-bit characters.
\<close>

definition asciiSpace :: "char \<Rightarrow> nat" where
  "asciiSpace c =
     (if of_char c \<in> {9, 10, 11, 12, 13, 32 :: nat} then 1 else 0)"

definition utf8_RuneSelf :: nat where
  "utf8_RuneSelf = 128"

definition isBlankUnicode :: "('w, 't, 'c) runtime \<Rightarrow> string \<Rightarrow> bool" where
  "isBlankUnicode rt v = list_all (unicode_IsSpace rt) (runes rt v)"

text \<open>
  The loop of \<^verbatim>\<open>IsBlank\<close> over the bytes \<^verbatim>\<open>value[i:]\<close>: the first byte at or above
  \<^verbatim>\<open>utf8.RuneSelf\<close> hands the rest of the string to the Unicode check, an ASCII byte
  that is no white space answers false, and the end of the string (also of the empty
  string, which the source tests first) answers true.
\<close>

fun IsBlank :: "('w, 't, 'c) runtime \<Rightarrow> string \<Rightarrow> bool" where
  "IsBlank rt [] = True"
| "IsBlank rt (c # cs) =
     (if of_char c \<ge> utf8_RuneSelf then isBlankUnicode rt (c # cs)
      else if asciiSpace c = 0 then False
      else IsBlank rt cs)"

section \<open>reqx/auth.go: the refreshable token store\<close>

text \<open>
  \<^verbatim>\<open>refreshableAuthStore\<close>. The two mutexes are not fields of the model: \<^verbatim>\<open>tokenMu\<close>
  makes each of the functions below one atomic step on the cache, and \<^verbatim>\<open>refreshMu\<close>
  is the point of \<open>getValidToken\<close> where the call waits for the other callers. The
  \<^verbatim>\<open>client\<close> handle given to the refresh function is part of the world \<open>'w\<close>.
\<close>

record 'w refreshableAuthStore =
  identityReader :: "'w \<Rightarrow> (Identity \<times> error option) \<times> 'w"
  refreshTokenFunc :: "Identity \<Rightarrow> 'w \<Rightarrow> (string \<times> error option) \<times> 'w"
  authRefreshBuffer :: duration
  token :: string
  tokenExpiration :: time

definition newRefreshableAuthStore ::
  "('w \<Rightarrow> (Identity \<times> error option) \<times> 'w) \<Rightarrow>
   (Identity \<Rightarrow> 'w \<Rightarrow> (string \<times> error option) \<times> 'w) \<Rightarrow> duration \<Rightarrow>
   'w refreshableAuthStore" where
  "newRefreshableAuthStore reader refreshFn buffer =
     \<lparr> identityReader = reader, refreshTokenFunc = refreshFn,
       authRefreshBuffer = buffer, token = [], tokenExpiration = time_zero \<rparr>"

definition extractTokenExpiration :: "('w, 't, 'c) runtime \<Rightarrow> string \<Rightarrow> time" where
  "extractTokenExpiration rt tokenString =
     (if IsBlank rt tokenString then time_zero
      else
        case ParseUnverified rt tokenString of
          (parsedToken, Some err) \<Rightarrow> time_zero
        | (parsedToken, None) \<Rightarrow>
            (case Claims_MapClaims rt parsedToken of
               None \<Rightarrow> time_zero
             | Some claims \<Rightarrow>
                 (case GetExpirationTime rt claims of
                    (exp, Some err) \<Rightarrow> time_zero
                  | (None, None) \<Rightarrow> time_zero
                  | (Some t, None) \<Rightarrow> t)))"

definition getTokenAndCheckExpiryAt ::
  "'w refreshableAuthStore \<Rightarrow> time \<Rightarrow> string \<times> bool" where
  "getTokenAndCheckExpiryAt as t =
     (token as, time_Before (tokenExpiration as) (time_Add t (authRefreshBuffer as)))"

definition getBearerToken :: "'w refreshableAuthStore \<Rightarrow> string" where
  "getBearerToken as = token as"

definition getTokenExpiration :: "'w refreshableAuthStore \<Rightarrow> time" where
  "getTokenExpiration as = tokenExpiration as"

definition setBearerToken ::
  "('w, 't, 'c) runtime \<Rightarrow> string \<Rightarrow> 'w refreshableAuthStore \<Rightarrow> 'w refreshableAuthStore" where
  "setBearerToken rt tok as =
     as \<lparr> token := tok, tokenExpiration := extractTokenExpiration rt tok \<rparr>"

text \<open>
  The calls a \<open>getValidToken\<close> makes outside the store, in the order it makes them.
\<close>

datatype call = Call_Now | Call_Get | Call_Refresh Identity

text \<open>
  \<^verbatim>\<open>getValidToken\<close>. The result is the returned pair \<^verbatim>\<open>(string, error)\<close>, the store
  and the world the call leaves, and the outside calls it made. \<open>waitLock\<close> is what the
  other goroutines did to the store and the world while this call waited in
  \<^verbatim>\<open>refreshMu.Lock()\<close>; for a call that runs alone it is the identity.
\<close>

definition getValidToken ::
  "('w, 't, 'c) runtime \<Rightarrow>
   ('w refreshableAuthStore \<times> 'w \<Rightarrow> 'w refreshableAuthStore \<times> 'w) \<Rightarrow>
   'w refreshableAuthStore \<Rightarrow> 'w \<Rightarrow>
   (string \<times> error option) \<times> 'w refreshableAuthStore \<times> 'w \<times> call list" where
  "getValidToken rt waitLock as w =
     (case Now rt w of (now, w1) \<Rightarrow>
      case getTokenAndCheckExpiryAt as now of (tok, isExpired) \<Rightarrow>
      if \<not> isExpired then ((tok, None), as, w1, [Call_Now])
      else
        case waitLock (as, w1) of (as2, w2) \<Rightarrow>
        case getTokenAndCheckExpiryAt as2 now of (tok2, isExpired2) \<Rightarrow>
        if \<not> isExpired2 then ((tok2, None), as2, w2, [Call_Now])
        else
          case identityReader as2 w2 of ((identity, err), w3) \<Rightarrow>
          if err \<noteq> None
          then (([], err), setBearerToken rt [] as2, w3, [Call_Now, Call_Get])
          else
            case refreshTokenFunc as2 identity w3 of ((newToken, err2), w4) \<Rightarrow>
            if err2 \<noteq> None
            then (([], err2), setBearerToken rt [] as2, w4,
                  [Call_Now, Call_Get, Call_Refresh identity])
            else ((newToken, None), setBearerToken rt newToken as2, w4,
                  [Call_Now, Call_Get, Call_Refresh identity]))"

section \<open>The response, the request and the engine of the wrapped HTTP library\<close>

text \<open>
  \<^verbatim>\<open>*req.Response\<close>, as far as this package reads it: the error the response
  carries (\<^verbatim>\<open>resp.Err\<close>: the transport's, when the round trip failed),
  \<^verbatim>\<open>IsErrorState()\<close>, the status code, the method and the raw address of its request,
  \<^verbatim>\<open>GetContentType()\<close>, and whether its body is \<^verbatim>\<open>nil\<close>. A response that may be
  \<^verbatim>\<open>nil\<close> is a \<open>Response option\<close>.
\<close>

record Response =
  Err :: "error option"
  IsErrorState :: bool
  StatusCode :: int
  Method :: string
  RawURL :: string
  ContentType :: string
  BodyNil :: bool

definition ErrResponseNil :: error where
  "ErrResponseNil = Error ''response is nil''"

definition ErrResponseBodyNil :: error where
  "ErrResponseBodyNil = Error ''response body is nil''"

definition JsonApplicationContentType :: string where
  "JsonApplicationContentType = ''application/json''"

text \<open>The decimal digits of a number, as \<^verbatim>\<open>%d\<close> prints them.\<close>

function decimal :: "nat \<Rightarrow> string" where
  "decimal n =
     (if n < 10 then [char_of (48 + n)]
      else decimal (n div 10) @ [char_of (48 + n mod 10)])"
  by pat_completeness auto
termination
  by (relation "measure id") auto

declare decimal.simps [simp del]

definition formatInt :: "int \<Rightarrow> string" where
  "formatInt i = (if i < 0 then CHR ''-'' # decimal (nat (- i)) else decimal (nat i))"

text \<open>\<^verbatim>\<open>responseErrorCause\<close>, case by case in the order of its \<^verbatim>\<open>switch\<close>.\<close>

definition responseErrorCause :: "Response option \<Rightarrow> error option \<Rightarrow> error option" where
  "responseErrorCause response err =
     (if err \<noteq> None then err
      else
        case response of
          None \<Rightarrow> Some ErrResponseNil
        | Some resp \<Rightarrow>
            if Err resp \<noteq> None then Err resp
            else if IsErrorState resp
            then Some (Error (''error request '' @ Method resp @ '' '' @ RawURL resp
                              @ '' with status '' @ formatInt (StatusCode resp)))
            else if ContentType resp = JsonApplicationContentType \<and> BodyNil resp
            then Some ErrResponseBodyNil
            else None)"

text \<open>
  \<^verbatim>\<open>*req.Request\<close>, with the settings this package makes on it: the after-response
  hooks of the request itself (\<^verbatim>\<open>OnAfterResponse\<close>), the bearer token, the retry
  count, the retry conditions and the retry hooks. \<open>payload\<close> is the rest of the
  request (headers, cookies, address), which an interceptor's \<^verbatim>\<open>Apply\<close> may set. The
  closures that this package installs as retry conditions and retry hooks are named by
  a tag: \<open>ResponseErrorCondition\<close> is the common condition of \<^verbatim>\<open>newRetryClient\<close>
  (\<open>commonRetryCondition\<close> below), \<open>ShouldInterceptCondition\<close> and \<open>RecoverHook\<close>
  are the closures of \<^verbatim>\<open>IR\<close> (\<open>retryCondition\<close> and \<open>retryHook\<close> below).
\<close>

datatype retry_condition = ResponseErrorCondition | ShouldInterceptCondition
datatype retry_hook = RecoverHook

record 'p Request =
  afterResponse :: "(Response \<Rightarrow> error option) list"
  bearerAuthToken :: "string option"
  retryCount :: int
  retryConditions :: "retry_condition list"
  retryHooks :: "retry_hook list"
  payload :: 'p






text \<open>
  \<^verbatim>\<open>*req.Client\<close>, the engine, with the settings \<^verbatim>\<open>newRetryClient\<close> and
  \<^verbatim>\<open>NewClient\<close> make on it: the client-wide after-response hooks, the common retry
  count, back-off interval and retry conditions, the timeout and the switches.
  \<open>requestDefaults\<close> is what a fresh request starts from. \<open>engine_R\<close> is
  \<^verbatim>\<open>client.R()\<close>: a fresh request, which retries as the common settings say.
\<close>

datatype Impersonation = NoImpersonation | Chrome | Firefox | Safari

record 'p Engine =
  engine_afterResponse :: "(Response \<Rightarrow> error option) list"
  commonRetryCount :: int
  commonRetryBackoffInterval :: "duration \<times> duration"
  commonRetryConditions :: "retry_condition list"
  timeout :: duration
  http3 :: bool
  autoDecompress :: bool
  autoDecode :: bool
  keepAlives :: bool
  impersonated :: Impersonation
  requestDefaults :: 'p




section \<open>The interceptor store\<close>

text \<open>
  An \<^verbatim>\<open>Interceptor\<close> is an object: its own state \<open>self\<close> and its four methods, each
  taking that state. \<^verbatim>\<open>Recover\<close> runs under the write lock of the store and returns
  the state it leaves; the other three run under the read lock and read it. The
  \<^verbatim>\<open>client\<close> argument of \<^verbatim>\<open>Recover\<close> and what it does through it belong to \<open>self\<close>.
\<close>

record ('i, 'p) Interceptor =
  self :: 'i
  ShouldIntercept :: "'i \<Rightarrow> Response option \<Rightarrow> error option \<Rightarrow> bool"
  Recover :: "'i \<Rightarrow> Response option \<Rightarrow> error option \<times> 'i"
  Apply :: "'i \<Rightarrow> 'p Request \<Rightarrow> 'p Request"
  MaxRetries :: "'i \<Rightarrow> int"

record ('i, 'p) interceptorStore =
  interceptor :: "('i, 'p) Interceptor"
  generation :: "64 word"


definition newInterceptorStore :: "('i, 'p) Interceptor \<Rightarrow> ('i, 'p) interceptorStore" where
  "newInterceptorStore ic = \<lparr> interceptor = ic, generation = 0 \<rparr>"

definition shouldIntercept ::
  "('i, 'p) interceptorStore \<Rightarrow> Response option \<Rightarrow> error option \<Rightarrow> bool" where
  "shouldIntercept s resp err =
     ShouldIntercept (interceptor s) (self (interceptor s)) resp err"

definition getGeneration :: "('i, 'p) interceptorStore \<Rightarrow> 64 word" where
  "getGeneration s = generation s"

text \<open>The calls into the interceptor that change or apply its state.\<close>

datatype icall = Call_Recover | Call_Apply

text \<open>
  \<^verbatim>\<open>recover\<close>: the returned error, the store it leaves, and whether
  \<^verbatim>\<open>Interceptor.Recover\<close> was called. \<^verbatim>\<open>s.generation++\<close> is the addition of
  \<open>64 word\<close>, which wraps.
\<close>

definition recover ::
  "('i, 'p) interceptorStore \<Rightarrow> Response option \<Rightarrow> 64 word \<Rightarrow>
   error option \<times> ('i, 'p) interceptorStore \<times> icall list" where
  "recover s resp genBefore =
     (if generation s \<noteq> genBefore then (None, s, [])
      else
        case Recover (interceptor s) (self (interceptor s)) resp of (err, i') \<Rightarrow>
          (err,
           s \<lparr> interceptor := (interceptor s) \<lparr> self := i' \<rparr>,
               generation := (if err = None then generation s + 1 else generation s) \<rparr>,
           [Call_Recover]))"

text \<open>
  \<^verbatim>\<open>interceptorStore.apply\<close>, under a name that is free here, and
  \<^verbatim>\<open>interceptorStore.maxRetries\<close>.
\<close>

definition apply_store :: "('i, 'p) interceptorStore \<Rightarrow> 'p Request \<Rightarrow> 'p Request" where
  "apply_store s r = Apply (interceptor s) (self (interceptor s)) r"


text \<open>
  A history of \<^verbatim>\<open>recover\<close> calls on one store, each with its response and the
  generation its caller read before: the store they leave, and in how many of them
  \<^verbatim>\<open>Interceptor.Recover\<close> was called, on the interceptor as the call found it, and
  returned no error.
\<close>

fun recoverHistory ::
  "('i, 'p) interceptorStore \<Rightarrow> (Response option \<times> 64 word) list \<Rightarrow>
   ('i, 'p) interceptorStore \<times> nat" where
  "recoverHistory s [] = (s, 0)"
| "recoverHistory s ((resp, g) # cs) =
     (case recoverHistory (fst (snd (recover s resp g))) cs of (s'', n) \<Rightarrow>
        (s'',
         (if generation s = g \<and>
             fst (Recover (interceptor s) (self (interceptor s)) resp) = None
          then 1 else 0) + n))"

section \<open>The retry conditions and the retry hook\<close>

text \<open>
  The closure that \<^verbatim>\<open>newRetryClient\<close> sets as the common retry condition, and the
  closures of \<^verbatim>\<open>Client.IR\<close>. The latter capture the store, the request \<open>r\<close> and the
  variable \<open>initGen\<close>; the hook assigns \<open>initGen\<close> and has \<^verbatim>\<open>Apply\<close> set the request
  in place, so the model takes the pair \<open>(r, initGen)\<close> and returns it. The hook returns
  no value: what it leaves is the store, the request, \<open>initGen\<close> and the calls it made.
  Each of \<open>getGeneration\<close>, \<open>recover\<close> and \<open>apply_store\<close> holds the lock of the store
  for itself only: \<open>others k\<close> is what the other goroutines did to the store between
  the hook's \<open>k\<close>-th locked section and the next one (the identity when the hook runs
  alone).
\<close>

definition commonRetryCondition :: "Response option \<Rightarrow> error option \<Rightarrow> bool" where
  "commonRetryCondition resp err = (responseErrorCause resp err \<noteq> None)"

definition retryCondition ::
  "('i, 'p) interceptorStore \<Rightarrow> Response option \<Rightarrow> error option \<Rightarrow> bool" where
  "retryCondition s resp err = shouldIntercept s resp err"

definition retryHook ::
  "(nat \<Rightarrow> ('i, 'p) interceptorStore \<Rightarrow> ('i, 'p) interceptorStore) \<Rightarrow>
   Response option \<Rightarrow> ('i, 'p) interceptorStore \<Rightarrow> 'p Request \<times> 64 word \<Rightarrow>
   ('i, 'p) interceptorStore \<times> ('p Request \<times> 64 word) \<times> icall list" where
  "retryHook others resp s env =
     (case env of (r, initGen) \<Rightarrow>
      let currentGen = getGeneration s; s1 = others 0 s in
      if currentGen \<noteq> initGen
      then (s1, (apply_store s1 r, currentGen), [Call_Apply])
      else
        case recover s1 resp currentGen of (recoverErr, s2, cs) \<Rightarrow>
          if recoverErr = None
          then
            let s3 = others 1 s2; r' = apply_store s3 r; s4 = others 2 s3
            in (s4, (r', getGeneration s4), cs @ [Call_Apply])
          else (s2, (r, initGen), cs))"

section \<open>The client: registries and request builders\<close>

datatype 'w authStore =
    TokenAuthStore string
  | RefreshableAuthStore "'w refreshableAuthStore"


text \<open>
  \<^verbatim>\<open>Options\<close> and the defaults of the package; durations are in nanoseconds.
  \<open>NoImpersonation\<close> is the constant \<^verbatim>\<open>None\<close> of the source.
\<close>

record Options =
  RetryCount :: int
  MinBackoff :: duration
  MaxBackoff :: duration
  Timeout :: duration
  AuthRefreshBuffer :: duration
  EnableHttp3 :: bool
  AutoDecompress :: bool
  AutoDecode :: bool
  DisableKeepAlives :: bool
  Impersonation :: Impersonation







text \<open>
  \<^verbatim>\<open>Client\<close>. The two maps hold the stores themselves, so a call that changes a store
  returns the client with that entry replaced.
\<close>

record ('w, 'i, 'p) Client =
  client :: "'p Engine"
  clientAuthRefreshBuffer :: duration
  auths :: "string \<rightharpoonup> 'w authStore"
  interceptors :: "string \<rightharpoonup> ('i, 'p) interceptorStore"




definition UnregisterAuth :: "string \<Rightarrow> ('w, 'i, 'p) Client \<Rightarrow> ('w, 'i, 'p) Client" where
  "UnregisterAuth serviceLabel c = c \<lparr> auths := (auths c)(serviceLabel := None) \<rparr>"


definition UnregisterInterceptor :: "string \<Rightarrow> ('w, 'i, 'p) Client \<Rightarrow> ('w, 'i, 'p) Client" where
  "UnregisterInterceptor label c =
     c \<lparr> interceptors := (interceptors c)(label := None) \<rparr>"




section \<open>States a token store can reach\<close>

text \<open>
  A store is made by \<open>newRefreshableAuthStore\<close> and changed by \<open>setBearerToken\<close> and
  by \<open>getValidToken\<close>; the store a \<open>getValidToken\<close> finds when it gets the refresh
  lock is one the other callers have reached.
\<close>

inductive reachable ::
  "('w, 't, 'c) runtime \<Rightarrow> 'w refreshableAuthStore \<Rightarrow> bool" for rt where
  reach_new: "reachable rt (newRefreshableAuthStore reader refreshFn buffer)"
| reach_set: "reachable rt as \<Longrightarrow> reachable rt (setBearerToken rt tok as)"
| reach_get:
    "reachable rt as \<Longrightarrow> reachable rt (fst (waitLock (as, snd (Now rt w)))) \<Longrightarrow>
     reachable rt (fst (snd (getValidToken rt waitLock as w)))"

section \<open>Concurrent callers of \<open>getValidToken\<close>\<close>

text \<open>
  Goroutines that each run \<^verbatim>\<open>getValidToken\<close> once on one store, interleaved. Every
  access to the cache is under \<^verbatim>\<open>tokenMu\<close> and every step below makes at most one,
  so a step is atomic. The place of a caller in the code:
  \<^item> \<open>Start\<close>: before \<^verbatim>\<open>now := time.Now()\<close>;
  \<^item> \<open>Entered now\<close>: before the first \<^verbatim>\<open>getTokenAndCheckExpiryAt(now)\<close>;
  \<^item> \<open>Waiting now\<close>: in \<^verbatim>\<open>as.refreshMu.Lock()\<close>;
  \<^item> \<open>Locked now\<close>: holding \<^verbatim>\<open>refreshMu\<close>, before the second check;
  \<^item> \<open>Fetching\<close>: before \<^verbatim>\<open>as.identityReader.Get()\<close>;
  \<^item> \<open>Refreshing identity\<close>: before \<^verbatim>\<open>as.refreshTokenFunc(as.client, identity)\<close>;
  \<^item> \<open>Clearing err\<close>: before \<^verbatim>\<open>as.setBearerToken("")\<close> on an error path;
  \<^item> \<open>Storing newToken\<close>: before \<^verbatim>\<open>as.setBearerToken(newToken)\<close>;
  \<^item> \<open>Returning res\<close>: at a \<^verbatim>\<open>return\<close> under the lock, before the deferred
    \<^verbatim>\<open>as.refreshMu.Unlock()\<close>;
  \<^item> \<open>Done res\<close>: returned \<open>res\<close>.
  The system is the store, the world, whether \<^verbatim>\<open>refreshMu\<close> is held, the place of
  every caller, and the outside calls made so far with their results.
\<close>

datatype gvt_pc =
    Start
  | Entered time
  | Waiting time
  | Locked time
  | Fetching
  | Refreshing Identity
  | Clearing "error option"
  | Storing string
  | Returning "string \<times> error option"
  | Done "string \<times> error option"

datatype gvt_event =
    Ev_Now time
  | Ev_Get "Identity \<times> error option"
  | Ev_Refresh "string \<times> error option"

record 'w gvt_sys =
  sys_store :: "'w refreshableAuthStore"
  sys_world :: 'w
  refreshMu :: bool
  pcs :: "nat \<Rightarrow> gvt_pc"
  events :: "gvt_event list"

definition gvt_init :: "'w refreshableAuthStore \<Rightarrow> 'w \<Rightarrow> 'w gvt_sys" where
  "gvt_init as w =
     \<lparr> sys_store = as, sys_world = w, refreshMu = False, pcs = (\<lambda>i. Start), events = [] \<rparr>"

definition gvt_step :: "('w, 't, 'c) runtime \<Rightarrow> nat \<Rightarrow> 'w gvt_sys \<Rightarrow> 'w gvt_sys" where
  "gvt_step rt i st =
     (case pcs st i of
        Start \<Rightarrow>
          (case Now rt (sys_world st) of (now, w') \<Rightarrow>
             st \<lparr> sys_world := w', pcs := (pcs st)(i := Entered now),
                  events := events st @ [Ev_Now now] \<rparr>)
      | Entered now \<Rightarrow>
          (case getTokenAndCheckExpiryAt (sys_store st) now of (tok, isExpired) \<Rightarrow>
             if \<not> isExpired then st \<lparr> pcs := (pcs st)(i := Done (tok, None)) \<rparr>
             else st \<lparr> pcs := (pcs st)(i := Waiting now) \<rparr>)
      | Waiting now \<Rightarrow>
          (if refreshMu st then st
           else st \<lparr> refreshMu := True, pcs := (pcs st)(i := Locked now) \<rparr>)
      | Locked now \<Rightarrow>
          (case getTokenAndCheckExpiryAt (sys_store st) now of (tok, isExpired) \<Rightarrow>
             if \<not> isExpired then st \<lparr> pcs := (pcs st)(i := Returning (tok, None)) \<rparr>
             else st \<lparr> pcs := (pcs st)(i := Fetching) \<rparr>)
      | Fetching \<Rightarrow>
          (case identityReader (sys_store st) (sys_world st) of ((identity, err), w') \<Rightarrow>
             st \<lparr> sys_world := w',
                  pcs := (pcs st)(i := (if err \<noteq> None then Clearing err
                                        else Refreshing identity)),
                  events := events st @ [Ev_Get (identity, err)] \<rparr>)
      | Refreshing identity \<Rightarrow>
          (case refreshTokenFunc (sys_store st) identity (sys_world st) of
             ((newToken, err), w') \<Rightarrow>
               st \<lparr> sys_world := w',
                    pcs := (pcs st)(i := (if err \<noteq> None then Clearing err
                                          else Storing newToken)),
                    events := events st @ [Ev_Refresh (newToken, err)] \<rparr>)
      | Clearing err \<Rightarrow>
          st \<lparr> sys_store := setBearerToken rt [] (sys_store st),
               pcs := (pcs st)(i := Returning ([], err)) \<rparr>
      | Storing newToken \<Rightarrow>
          st \<lparr> sys_store := setBearerToken rt newToken (sys_store st),
               pcs := (pcs st)(i := Returning (newToken, None)) \<rparr>
      | Returning res \<Rightarrow>
          st \<lparr> refreshMu := False, pcs := (pcs st)(i := Done res) \<rparr>
      | Done res \<Rightarrow> st)"

definition gvt_run ::
  "('w, 't, 'c) runtime \<Rightarrow> nat list \<Rightarrow> 'w gvt_sys \<Rightarrow> 'w gvt_sys" where
  "gvt_run rt sched st = foldl (\<lambda>st i. gvt_step rt i st) st sched"


text \<open>
  What the invariant of the refresh protocol is made of. A caller holds \<^verbatim>\<open>refreshMu\<close>
  from \<open>Locked\<close> to \<open>Returning\<close>. An outside call is calm, for the entry times
  \<open>T0\<close> to \<open>T1\<close> and a buffer, when a clock reading lies between \<open>T0\<close> and
  \<open>T1\<close>, a credential fetch succeeds, and a refresh succeeds with a token whose
  decoded expiration is at least the buffer after \<open>T1\<close>.
\<close>

fun holds_refreshMu :: "gvt_pc \<Rightarrow> bool" where
  "holds_refreshMu (Locked now) = True"
| "holds_refreshMu Fetching = True"
| "holds_refreshMu (Refreshing identity) = True"
| "holds_refreshMu (Clearing err) = True"
| "holds_refreshMu (Storing newToken) = True"
| "holds_refreshMu (Returning res) = True"
| "holds_refreshMu pc = False"

fun refreshes :: "gvt_event list \<Rightarrow> (string \<times> error option) list" where
  "refreshes [] = []"
| "refreshes (Ev_Refresh r # evs) = r # refreshes evs"
| "refreshes (ev # evs) = refreshes evs"

fun calm :: "('w, 't, 'c) runtime \<Rightarrow> time \<Rightarrow> time \<Rightarrow> duration \<Rightarrow> gvt_event \<Rightarrow> bool" where
  "calm rt T0 T1 buffer (Ev_Now now) = (T0 \<le> now \<and> now \<le> T1)"
| "calm rt T0 T1 buffer (Ev_Get (identity, err)) = (err = None)"
| "calm rt T0 T1 buffer (Ev_Refresh (newToken, err)) =
     (err = None \<and> T1 + buffer \<le> extractTokenExpiration rt newToken)"

fun entry_ok :: "time \<Rightarrow> time \<Rightarrow> gvt_pc \<Rightarrow> bool" where
  "entry_ok T0 T1 (Entered now) = (T0 \<le> now \<and> now \<le> T1)"
| "entry_ok T0 T1 (Waiting now) = (T0 \<le> now \<and> now \<le> T1)"
| "entry_ok T0 T1 (Locked now) = (T0 \<le> now \<and> now \<le> T1)"
| "entry_ok T0 T1 pc = True"

fun before_refresh :: "gvt_pc \<Rightarrow> bool" where
  "before_refresh Start = True"
| "before_refresh (Entered now) = True"
| "before_refresh (Waiting now) = True"
| "before_refresh (Locked now) = True"
| "before_refresh Fetching = True"
| "before_refresh (Refreshing identity) = True"
| "before_refresh pc = False"

fun outside_lock :: "gvt_pc \<Rightarrow> bool" where
  "outside_lock Start = True"
| "outside_lock (Entered now) = True"
| "outside_lock (Waiting now) = True"
| "outside_lock pc = False"

fun after_refresh :: "string \<Rightarrow> gvt_pc \<Rightarrow> bool" where
  "after_refresh tok Start = True"
| "after_refresh tok (Entered now) = True"
| "after_refresh tok (Waiting now) = True"
| "after_refresh tok (Locked now) = True"
| "after_refresh tok (Returning res) = (res = (tok, None))"
| "after_refresh tok (Done res) = (res = (tok, None))"
| "after_refresh tok pc = False"

definition mutex :: "'w gvt_sys \<Rightarrow> bool" where
  "mutex st \<longleftrightarrow>
     (\<forall>i j. holds_refreshMu (pcs st i) \<and> holds_refreshMu (pcs st j) \<longrightarrow> i = j) \<and>
     (refreshMu st \<longleftrightarrow> (\<exists>i. holds_refreshMu (pcs st i)))"

definition not_refreshed :: "time \<Rightarrow> 'w gvt_sys \<Rightarrow> bool" where
  "not_refreshed T0 st \<longleftrightarrow>
     refreshes (events st) = [] \<and>
     tokenExpiration (sys_store st) < T0 + authRefreshBuffer (sys_store st) \<and>
     (\<forall>i. before_refresh (pcs st i))"

definition storing :: "time \<Rightarrow> string \<Rightarrow> nat \<Rightarrow> 'w gvt_sys \<Rightarrow> bool" where
  "storing T0 tok k st \<longleftrightarrow>
     refreshes (events st) = [(tok, None)] \<and> pcs st k = Storing tok \<and>
     tokenExpiration (sys_store st) < T0 + authRefreshBuffer (sys_store st) \<and>
     (\<forall>j. j \<noteq> k \<longrightarrow> outside_lock (pcs st j))"

definition refreshed :: "time \<Rightarrow> string \<Rightarrow> 'w gvt_sys \<Rightarrow> bool" where
  "refreshed T1 tok st \<longleftrightarrow>
     refreshes (events st) = [(tok, None)] \<and>
     T1 + authRefreshBuffer (sys_store st) \<le> tokenExpiration (sys_store st) \<and>
     token (sys_store st) = tok \<and>
     (\<forall>i. after_refresh tok (pcs st i))"

definition phase :: "time \<Rightarrow> time \<Rightarrow> 'w gvt_sys \<Rightarrow> bool" where
  "phase T0 T1 st \<longleftrightarrow>
     not_refreshed T0 st \<or> (\<exists>tok k. storing T0 tok k st) \<or> (\<exists>tok. refreshed T1 tok st)"

definition gvt_inv :: "time \<Rightarrow> time \<Rightarrow> duration \<Rightarrow> 'w gvt_sys \<Rightarrow> bool" where
  "gvt_inv T0 T1 buffer st \<longleftrightarrow>
     authRefreshBuffer (sys_store st) = buffer \<and>
     (\<forall>i. entry_ok T0 T1 (pcs st i)) \<and> mutex st \<and> phase T0 T1 st"


text \<open>
  The steps a caller still has before it, at most; the callers numbered below \<open>N\<close>
  are the ones that run.
\<close>

fun rank :: "gvt_pc \<Rightarrow> nat" where
  "rank Start = 9"
| "rank (Entered now) = 8"
| "rank (Waiting now) = 7"
| "rank (Locked now) = 6"
| "rank Fetching = 5"
| "rank (Refreshing identity) = 4"
| "rank (Clearing err) = 3"
| "rank (Storing newToken) = 3"
| "rank (Returning res) = 1"
| "rank (Done res) = 0"

fun returned :: "gvt_pc \<Rightarrow> bool" where
  "returned (Done res) = True"
| "returned pc = False"

fun waits :: "gvt_pc \<Rightarrow> bool" where
  "waits (Waiting now) = True"
| "waits pc = False"

definition work :: "nat \<Rightarrow> 'w gvt_sys \<Rightarrow> nat" where
  "work N st = (\<Sum>i<N. rank (pcs st i))"

definition quiet :: "nat \<Rightarrow> 'w gvt_sys \<Rightarrow> bool" where
  "quiet N st \<longleftrightarrow> (\<forall>i\<ge>N. pcs st i = Start)"


section \<open>Concrete stores and interceptors\<close>

text \<open>
  A world that is its own clock, in which every reading advances the clock by one; a
  decoder that knows the token \<open>''A''\<close> (expiring at 120) and the token \<open>''B''\<close>
  (expiring at 5000), rejects \<open>''not-a-jwt''\<close> and finds no expiration in anything
  else.
\<close>

definition demo_runtime :: "(int, string, string) runtime" where
  "demo_runtime =
     \<lparr> Now = (\<lambda>w. (w, w + 1)),
       ParseUnverified =
         (\<lambda>s. (s, if s = ''not-a-jwt'' then Some (Error ''token is malformed'') else None)),
       Claims_MapClaims = Some,
       GetExpirationTime =
         (\<lambda>c. if c = ''A'' then (Some 120, None)
              else if c = ''B'' then (Some 5000, None) else (None, None)),
       runes = map of_char,
       unicode_IsSpace = (\<lambda>r. r \<in> {9, 10, 11, 12, 13, 32, 133, 160}) \<rparr>"

definition demo_identity :: Identity where
  "demo_identity = \<lparr> User = ''u'', Secret = ''p'' \<rparr>"

text \<open>A store with a buffer of 20 whose refresh function answers \<open>''B''\<close>.\<close>

definition demo_store :: "int refreshableAuthStore" where
  "demo_store =
     newRefreshableAuthStore (\<lambda>w. ((demo_identity, None), w))
       (\<lambda>i w. ((''B'', None), w)) 20"

definition demo_cached :: "int refreshableAuthStore" where
  "demo_cached = setBearerToken demo_runtime ''A'' demo_store"

text \<open>The same cache on a store whose credential cannot be read.\<close>

definition demo_unreadable :: "int refreshableAuthStore" where
  "demo_unreadable =
     setBearerToken demo_runtime ''A''
       (newRefreshableAuthStore
          (\<lambda>w. ((\<lparr> User = [], Secret = [] \<rparr>, Some (Error ''credential not found'')), w))
          (\<lambda>i w. ((''B'', None), w)) 20)"

text \<open>
  What a caller may find when it gets the refresh lock late: the others have stored the
  token \<open>''A''\<close>, and the clock has moved on to 150.
\<close>

definition demo_waitLock ::
  "int refreshableAuthStore \<times> int \<Rightarrow> int refreshableAuthStore \<times> int" where
  "demo_waitLock = (\<lambda>(as, w). (setBearerToken demo_runtime ''A'' as, 150))"

text \<open>
  Responses with the status 200, 403 and 500, and the response of a round trip that the
  transport could not make. An interceptor that counts its
  recoveries and writes the count into the request, one whose recovery fails, and one
  whose recovery fails with an error that tells the status it was called for.
\<close>

definition demo_ok :: Response where
  "demo_ok =
     \<lparr> Err = None, IsErrorState = False, StatusCode = 200, Method = ''GET'',
       RawURL = ''http://example.com'', ContentType = [], BodyNil = False \<rparr>"

definition demo_forbidden :: Response where
  "demo_forbidden = demo_ok \<lparr> IsErrorState := True, StatusCode := 403 \<rparr>"

definition demo_unavailable :: Response where
  "demo_unavailable = demo_ok \<lparr> IsErrorState := True, StatusCode := 500 \<rparr>"


definition demo_interceptor :: "(nat, nat) Interceptor" where
  "demo_interceptor =
     \<lparr> self = 0,
       ShouldIntercept =
         (\<lambda>i resp err. case resp of None \<Rightarrow> False | Some r \<Rightarrow> StatusCode r = 403),
       Recover = (\<lambda>i resp. (None, Suc i)),
       Apply = (\<lambda>i r. r \<lparr> payload := i \<rparr>),
       MaxRetries = (\<lambda>i. 0) \<rparr>"

definition demo_failing_interceptor :: "(nat, nat) Interceptor" where
  "demo_failing_interceptor =
     demo_interceptor \<lparr> Recover := (\<lambda>i resp. (Some (Error ''recovery failed''), i)) \<rparr>"

definition demo_telling_interceptor :: "(nat, nat) Interceptor" where
  "demo_telling_interceptor =
     demo_interceptor
       \<lparr> Recover := (\<lambda>i resp.
            (Some (Error (if resp = Some demo_forbidden then ''forbidden''
                          else ''unavailable'')), i)) \<rparr>"




definition demo_request :: "nat Request" where
  "demo_request =
     \<lparr> afterResponse = [], bearerAuthToken = None, retryCount = 0,
       retryConditions = [ResponseErrorCondition], retryHooks = [], payload = 0 \<rparr>"



text \<open>
  Another request that recovers, at the generation it finds, in the first gap of a
  hook; and no other request at all.
\<close>

definition demo_others ::
  "nat \<Rightarrow> (nat, nat) interceptorStore \<Rightarrow> (nat, nat) interceptorStore" where
  "demo_others k s =
     (if k = 0 then fst (snd (recover s (Some demo_forbidden) (generation s))) else s)"

definition alone :: "nat \<Rightarrow> 's \<Rightarrow> 's" where
  "alone k s = s"

text \<open>
  A store whose refresh function answers a token the decoder finds no expiration in,
  and a schedule of two callers: both enter and find the cache stale, then the first
  runs to its return, then the second.
\<close>

definition demo_opaque :: "int refreshableAuthStore" where
  "demo_opaque =
     setBearerToken demo_runtime ''A''
       (newRefreshableAuthStore (\<lambda>w. ((demo_identity, None), w))
          (\<lambda>i w. ((''opaque'', None), w)) 20)"

definition demo_schedule :: "nat list" where
  "demo_schedule = [0, 1, 0, 1, 0, 0, 0, 0, 0, 0, 1, 1, 1, 1, 1, 1]"



section \<open>Properties of the token store\<close>

subsection \<open>The concrete stores, evaluated\<close>

lemma demo_Now: "Now demo_runtime w = (w, w + 1)"
  by (simp add: demo_runtime_def)

lemma demo_extract:
  "extractTokenExpiration demo_runtime ''A'' = 120"
  "extractTokenExpiration demo_runtime ''B'' = 5000"
  "extractTokenExpiration demo_runtime [] = 0"
  by (simp_all add: demo_runtime_def extractTokenExpiration_def asciiSpace_def
      utf8_RuneSelf_def time_zero_def)

lemma demo_store_fields:
  "token demo_store = []" "tokenExpiration demo_store = 0"
  "authRefreshBuffer demo_store = 20"
  "identityReader demo_store = (\<lambda>w. ((demo_identity, None), w))"
  "refreshTokenFunc demo_store = (\<lambda>i w. ((''B'', None), w))"
  by (simp_all add: demo_store_def newRefreshableAuthStore_def time_zero_def)

lemma demo_cached_fields:
  "token demo_cached = ''A''" "tokenExpiration demo_cached = 120"
  "authRefreshBuffer demo_cached = 20"
  "identityReader demo_cached = (\<lambda>w. ((demo_identity, None), w))"
  "refreshTokenFunc demo_cached = (\<lambda>i w. ((''B'', None), w))"
  by (simp_all add: demo_cached_def setBearerToken_def demo_extract demo_store_fields)

lemma demo_unreadable_fields:
  "token demo_unreadable = ''A''" "tokenExpiration demo_unreadable = 120"
  "authRefreshBuffer demo_unreadable = 20"
  "identityReader demo_unreadable =
     (\<lambda>w. ((\<lparr> User = [], Secret = [] \<rparr>, Some (Error ''credential not found'')), w))"
  "refreshTokenFunc demo_unreadable = (\<lambda>i w. ((''B'', None), w))"
  by (simp_all add: demo_unreadable_def setBearerToken_def demo_extract
      newRefreshableAuthStore_def)

subsection \<open>The paths of \<open>getValidToken\<close>\<close>

lemma getValidToken_fast:
  assumes "Now rt w = (now, w1)"
    and "\<not> time_Before (tokenExpiration as) (time_Add now (authRefreshBuffer as))"
  shows "getValidToken rt waitLock as w = ((token as, None), as, w1, [Call_Now])"
  using assms by (simp add: getValidToken_def getTokenAndCheckExpiryAt_def)

lemma getValidToken_slow:
  assumes "Now rt w = (now, w1)"
    and "time_Before (tokenExpiration as) (time_Add now (authRefreshBuffer as))"
    and "waitLock (as, w1) = (as2, w2)"
    and "time_Before (tokenExpiration as2) (time_Add now (authRefreshBuffer as2))"
    and "identityReader as2 w2 = ((identity, err), w3)"
    and "refreshTokenFunc as2 identity w3 = ((newToken, err2), w4)"
  shows "getValidToken rt waitLock as w =
     (if err \<noteq> None then (([], err), setBearerToken rt [] as2, w3, [Call_Now, Call_Get])
      else if err2 \<noteq> None
        then (([], err2), setBearerToken rt [] as2, w4,
              [Call_Now, Call_Get, Call_Refresh identity])
        else ((newToken, None), setBearerToken rt newToken as2, w4,
              [Call_Now, Call_Get, Call_Refresh identity]))"
  using assms by (simp add: getValidToken_def getTokenAndCheckExpiryAt_def)

lemma getValidToken_store_cases:
  assumes "Now rt w = (now, w1)" and "waitLock (as, w1) = (as2, w2)"
  shows "fst (snd (getValidToken rt waitLock as w)) = as \<or>
         fst (snd (getValidToken rt waitLock as w)) = as2 \<or>
         (\<exists>tok. fst (snd (getValidToken rt waitLock as w)) = setBearerToken rt tok as2)"
  using assms
  by (auto simp: getValidToken_def split: prod.splits if_splits)

lemma reachable_cache_decoded:
  "reachable rt as \<Longrightarrow> tokenExpiration as = extractTokenExpiration rt (token as)"
proof (induction rule: reachable.induct)
  case (reach_new reader refreshFn buffer)
  show ?case by (simp add: newRefreshableAuthStore_def extractTokenExpiration_def)
next
  case (reach_set as tok)
  show ?case by (simp add: setBearerToken_def)
next
  case (reach_get as waitLock w)
  obtain now w1 where n: "Now rt w = (now, w1)" by (metis surj_pair)
  obtain as2 w2 where l: "waitLock (as, w1) = (as2, w2)" by (metis surj_pair)
  from n l reach_get.IH have i2: "tokenExpiration as2 = extractTokenExpiration rt (token as2)"
    by simp
  from getValidToken_store_cases [of rt w now w1 waitLock as as2 w2] n l
  show ?case using reach_get.IH(1) i2 by (auto simp: setBearerToken_def)
qed




text \<open>
  C3. A \<open>getValidToken\<close> that has found the cache stale on the fast path and again
  under the refresh lock, and whose credential fetch or refresh function returns the
  error \<open>e\<close>, returns the empty token with \<open>e\<close> and leaves the store with the empty
  token and the zero instant, written by \<open>setBearerToken\<close> of the empty string. A
  later staleness check of that store, at any instant \<open>now'\<close> whose \<open>now'\<close> plus the
  buffer is after the zero instant, answers stale.
\<close>

theorem getValidToken_failure_clears_cache:
  assumes "Now rt w = (now, w1)"
    and "waitLock (as, w1) = (as2, w2)"
    and "time_Before (tokenExpiration as) (time_Add now (authRefreshBuffer as))"
    and "time_Before (tokenExpiration as2) (time_Add now (authRefreshBuffer as2))"
    and "identityReader as2 w2 = ((identity, err), w3)"
    and "refreshTokenFunc as2 identity w3 = ((newToken, err2), w4)"
    and "getValidToken rt waitLock as w = (res, as', w', cs)"
    and "err = Some e \<or> err = None \<and> err2 = Some e"
  shows "res = ([], Some e) \<and> token as' = [] \<and> tokenExpiration as' = time_zero \<and>
         as' = setBearerToken rt [] as2 \<and>
         getTokenAndCheckExpiryAt as' now' = ([], time_zero < now' + authRefreshBuffer as2)"
  using assms
  by (auto simp: getValidToken_def getTokenAndCheckExpiryAt_def setBearerToken_def
      extractTokenExpiration_def time_Before_def time_Add_def)

text \<open>
  On a store whose credential cannot be read, a call at the clock reading 101, when the
  cached token \<open>''A''\<close> is stale, returns the reader's error and leaves the cache
  empty.
\<close>

theorem getValidToken_failure_clears_cache_witness:
  "time_Before (tokenExpiration demo_unreadable) (time_Add 101 (authRefreshBuffer demo_unreadable)) \<and>
   fst (identityReader demo_unreadable 102) =
     (\<lparr> User = [], Secret = [] \<rparr>, Some (Error ''credential not found'')) \<and>
   fst (getValidToken demo_runtime id demo_unreadable 101) =
     ([], Some (Error ''credential not found'')) \<and>
   token (fst (snd (getValidToken demo_runtime id demo_unreadable 101))) = [] \<and>
   tokenExpiration (fst (snd (getValidToken demo_runtime id demo_unreadable 101))) = time_zero"
proof -
  let ?as = demo_unreadable
  have n: "Now demo_runtime 101 = (101, 102)" by (simp add: demo_Now)
  have l: "id (?as, 102 :: int) = (?as, 102)" by simp
  have st: "time_Before (tokenExpiration ?as) (time_Add 101 (authRefreshBuffer ?as))"
    by (simp add: demo_unreadable_fields time_Before_def time_Add_def)
  have i: "identityReader ?as 102 =
      ((\<lparr> User = [], Secret = [] \<rparr>, Some (Error ''credential not found'')), 102)"
    by (simp add: demo_unreadable_fields)
  have r: "refreshTokenFunc ?as \<lparr> User = [], Secret = [] \<rparr> 102 = ((''B'', None), 102)"
    by (simp add: demo_unreadable_fields)
  obtain res as' w' cs where g: "getValidToken demo_runtime id ?as 101 = (res, as', w', cs)"
    by (metis prod_cases4)
  have e: "Some (Error ''credential not found'') = Some (Error ''credential not found'') \<or>
      Some (Error ''credential not found'') = None \<and> None = Some (Error ''credential not found'')"
    by simp
  from getValidToken_failure_clears_cache [where waitLock = id and now' = 0, OF n l st st i r g e]
  have "res = ([], Some (Error ''credential not found''))"
    and "token as' = []" and "tokenExpiration as' = time_zero"
    by blast+
  with st i g show ?thesis by simp
qed

text \<open>
  C4. In every state a token store can reach, a cached token that is not empty has as
  its cached expiration the expiration decoded from that token (\<open>extractTokenExpiration\<close>
  of it, which is the zero instant when the token cannot be decoded).
\<close>

theorem cached_expiration_is_decoded:
  assumes "reachable rt as"
  shows "token as \<noteq> [] \<longrightarrow> tokenExpiration as = extractTokenExpiration rt (token as)"
  using reachable_cache_decoded [OF assms] by simp

theorem cached_expiration_is_decoded_witness:
  "reachable demo_runtime (fst (snd (getValidToken demo_runtime id demo_cached 101))) \<and>
   token (fst (snd (getValidToken demo_runtime id demo_cached 101))) = ''B'' \<and>
   tokenExpiration (fst (snd (getValidToken demo_runtime id demo_cached 101))) =
     extractTokenExpiration demo_runtime ''B''"
proof -
  let ?as = "fst (snd (getValidToken demo_runtime id demo_cached 101))"
  have r0: "reachable demo_runtime demo_cached"
    unfolding demo_cached_def demo_store_def by (intro reach_set reach_new)
  have r: "reachable demo_runtime ?as"
    by (rule reach_get) (simp_all add: r0)
  have t: "token ?as = ''B''"
    by (simp add: getValidToken_def getTokenAndCheckExpiryAt_def demo_Now demo_cached_fields
        time_Before_def time_Add_def setBearerToken_def)
  from cached_expiration_is_decoded [OF r] t
  have "tokenExpiration ?as = extractTokenExpiration demo_runtime ''B''" by simp
  with r t show ?thesis by simp
qed

subsection \<open>Decoding and the clock\<close>

lemma IsBlank_Now_update: "IsBlank (rt \<lparr> Now := f \<rparr>) v = IsBlank rt v"
  by (induction v) (simp_all add: isBlankUnicode_def)

lemma extractTokenExpiration_Now_update:
  "extractTokenExpiration (rt \<lparr> Now := f \<rparr>) tok = extractTokenExpiration rt tok"
  by (simp add: extractTokenExpiration_def IsBlank_Now_update
      cong: option.case_cong prod.case_cong)

lemma setBearerToken_Now_update:
  "setBearerToken (rt \<lparr> Now := f \<rparr>) tok as = setBearerToken rt tok as"
  by (simp add: setBearerToken_def extractTokenExpiration_Now_update)







text \<open>
  C10. A \<open>getValidToken\<close> reads the clock once, first of all: with \<open>now\<close> that
  reading, the fast-path check is the staleness check of the store at \<open>now\<close>, and the
  check under the refresh lock is the staleness check at the same \<open>now\<close> of the store
  \<open>as2\<close> found there, whatever the clock of the world \<open>w2\<close> shows by then. The call
  depends on the clock through that one reading only: another clock that gives the same
  reading at the entry gives the same call.
\<close>

theorem getValidToken_reads_clock_once:
  assumes "Now rt w = (now, w1)"
    and "waitLock (as, w1) = (as2, w2)"
    and "getValidToken rt waitLock as w = (res, as', w', cs)"
  shows "count_list cs Call_Now = 1 \<and> hd cs = Call_Now \<and>
     (\<not> snd (getTokenAndCheckExpiryAt as now) \<longrightarrow>
        res = (token as, None) \<and> as' = as \<and> cs = [Call_Now]) \<and>
     (snd (getTokenAndCheckExpiryAt as now) \<and> \<not> snd (getTokenAndCheckExpiryAt as2 now) \<longrightarrow>
        res = (token as2, None) \<and> as' = as2 \<and> cs = [Call_Now]) \<and>
     (snd (getTokenAndCheckExpiryAt as now) \<and> snd (getTokenAndCheckExpiryAt as2 now) \<longrightarrow>
        Call_Get \<in> set cs) \<and>
     (\<forall>f. f w = Now rt w \<longrightarrow>
        getValidToken (rt \<lparr> Now := f \<rparr>) waitLock as w = getValidToken rt waitLock as w)"
proof -
  have a: "count_list cs Call_Now = 1 \<and> hd cs = Call_Now \<and>
     (\<not> snd (getTokenAndCheckExpiryAt as now) \<longrightarrow>
        res = (token as, None) \<and> as' = as \<and> cs = [Call_Now]) \<and>
     (snd (getTokenAndCheckExpiryAt as now) \<and> \<not> snd (getTokenAndCheckExpiryAt as2 now) \<longrightarrow>
        res = (token as2, None) \<and> as' = as2 \<and> cs = [Call_Now]) \<and>
     (snd (getTokenAndCheckExpiryAt as now) \<and> snd (getTokenAndCheckExpiryAt as2 now) \<longrightarrow>
        Call_Get \<in> set cs)"
    using assms
    by (auto simp: getValidToken_def getTokenAndCheckExpiryAt_def
        split: prod.splits if_splits)
  have b: "getValidToken (rt \<lparr> Now := f \<rparr>) waitLock as w = getValidToken rt waitLock as w"
    if "f w = Now rt w" for f
    using that
    by (simp add: getValidToken_def setBearerToken_Now_update
        cong: if_cong prod.case_cong)
  from a b show ?thesis by blast
qed

text \<open>
  A caller enters at the clock reading 90 with an empty cache. While it waits for the
  refresh lock the others store the token \<open>''A''\<close>, which expires at 120, and the clock
  reaches 150. Judged at 150 that token is stale; the call judges it at 90 and returns
  it.
\<close>

theorem getValidToken_reads_clock_once_witness:
  "Now demo_runtime 90 = (90, 91) \<and>
   demo_waitLock (demo_store, 91) = (demo_cached, 150) \<and>
   snd (getTokenAndCheckExpiryAt demo_store 90) \<and>
   \<not> snd (getTokenAndCheckExpiryAt demo_cached 90) \<and>
   snd (getTokenAndCheckExpiryAt demo_cached 150) \<and>
   getValidToken demo_runtime demo_waitLock demo_store 90 =
     ((''A'', None), demo_cached, 150, [Call_Now])"
proof -
  have n: "Now demo_runtime 90 = (90, 91)" by (simp add: demo_Now)
  have l: "demo_waitLock (demo_store, 91) = (demo_cached, 150)"
    by (simp add: demo_waitLock_def demo_cached_def)
  have s1: "snd (getTokenAndCheckExpiryAt demo_store 90)"
    and s2: "\<not> snd (getTokenAndCheckExpiryAt demo_cached 90)"
    and s3: "snd (getTokenAndCheckExpiryAt demo_cached 150)"
    by (simp_all add: getTokenAndCheckExpiryAt_def demo_store_fields demo_cached_fields
        time_Before_def time_Add_def)
  obtain res as' w' cs where
    g: "getValidToken demo_runtime demo_waitLock demo_store 90 = (res, as', w', cs)"
    by (metis prod_cases4)
  from getValidToken_reads_clock_once [where waitLock = demo_waitLock, OF n l g] s1 s2
  have "res = (token demo_cached, None)" and "as' = demo_cached" and "cs = [Call_Now]"
    by simp_all
  moreover from g n l s1 s2 have "w' = 150"
    by (simp add: getValidToken_def split: prod.splits)
  ultimately show ?thesis using n l s1 s2 s3 g by (simp add: demo_cached_fields)
qed

section \<open>Properties of the interceptor store\<close>

lemma recover_call:
  assumes "generation s = genBefore"
    and "Recover (interceptor s) (self (interceptor s)) resp = (err, i')"
  shows "recover s resp genBefore =
     (err,
      s \<lparr> interceptor := (interceptor s) \<lparr> self := i' \<rparr>,
          generation := (if err = None then generation s + 1 else generation s) \<rparr>,
      [Call_Recover])"
  using assms by (simp add: recover_def)

lemma recover_generation:
  "generation (fst (snd (recover s resp g))) =
     (if generation s = g \<and> fst (Recover (interceptor s) (self (interceptor s)) resp) = None
      then generation s + 1 else generation s)"
  by (simp add: recover_def split: prod.splits)

lemma unat_generation_succ:
  fixes g :: "64 word"
  assumes "unat g < 2 ^ 64 - 1"
  shows "unat (g + 1) = unat g + 1"
  using assms by (simp add: unat_word_ariths)

lemma recoverHistory_generation:
  "recoverHistory s0 calls = (s, n) \<Longrightarrow> unat (generation s0) + length calls < 2 ^ 64 \<Longrightarrow>
   unat (generation s) = unat (generation s0) + n \<and> n \<le> length calls"
proof (induction calls arbitrary: s0 s n)
  case Nil
  then show ?case by simp
next
  case (Cons c calls)
  obtain resp g where c: "c = (resp, g)" by (cases c)
  let ?s1 = "fst (snd (recover s0 resp g))"
  obtain s2 m where h: "recoverHistory ?s1 calls = (s2, m)" by (metis surj_pair)
  let ?d = "if generation s0 = g \<and>
               fst (Recover (interceptor s0) (self (interceptor s0)) resp) = None
            then 1 else 0 :: nat"
  from Cons.prems(1) c h have s: "s = s2" and n: "n = ?d + m" by simp_all
  have g1: "generation ?s1 =
      (if generation s0 = g \<and>
          fst (Recover (interceptor s0) (self (interceptor s0)) resp) = None
       then generation s0 + 1 else generation s0)"
    by (rule recover_generation)
  from Cons.prems(2) have b: "unat (generation s0) < 2 ^ 64 - 1" by simp
  from g1 unat_generation_succ [OF b]
  have u1: "unat (generation ?s1) = unat (generation s0) + ?d" by auto
  with Cons.prems(2) have "unat (generation ?s1) + length calls < 2 ^ 64" by auto
  from Cons.IH [OF h this] u1 s n show ?case by simp
qed

text \<open>
  C5. The generation of a new store is 0. Let \<open>recover\<close> be called on a store \<open>s\<close>,
  and let \<open>(rerr, i')\<close> be what \<^verbatim>\<open>Interceptor.Recover\<close> of the wrapped interceptor
  returns on the state and the response of that call. If the call finds the generation
  its caller read before and \<open>rerr\<close> is no error, the call returns no error, adds
  exactly 1 to the generation and keeps the state \<open>i'\<close>. If it finds that generation
  and \<open>rerr\<close> is an error, the call returns that error and leaves the generation as it
  is. If it finds another generation (the generation changed while the caller waited
  for the lock), it returns no error and leaves the whole store as it is, the
  interceptor's state included. The generation is a 64-bit counter: in a store \<open>s\<close>
  that a history of fewer than \<open>2 ^ 64 - 1\<close> calls of \<open>recover\<close> has made of a new
  store, it is the number of those calls in which \<^verbatim>\<open>Interceptor.Recover\<close> ran and
  returned no error, the addition of 1 does not wrap, and no call of \<open>recover\<close>
  lowers it.
\<close>

theorem generation_counts_successful_recoveries:
  assumes "recoverHistory (newInterceptorStore ic) calls = (s, n)"
    and "Recover (interceptor s) (self (interceptor s)) resp = (rerr, i')"
    and "recover s resp genBefore = (err, s', tr)"
  shows "generation (newInterceptorStore ic) = 0 \<and>
         (generation s = genBefore \<and> rerr = None \<longrightarrow>
            err = None \<and> tr = [Call_Recover] \<and> generation s' = generation s + 1 \<and>
            self (interceptor s') = i') \<and>
         (generation s = genBefore \<and> rerr \<noteq> None \<longrightarrow>
            err = rerr \<and> tr = [Call_Recover] \<and> generation s' = generation s \<and>
            self (interceptor s') = i') \<and>
         (generation s \<noteq> genBefore \<longrightarrow> err = None \<and> tr = [] \<and> s' = s) \<and>
         (length calls < 2 ^ 64 - 1 \<longrightarrow>
            unat (generation s) = n \<and>
            unat (generation s) \<le> unat (generation s') \<and>
            (generation s = genBefore \<and> rerr = None \<longrightarrow>
               unat (generation s') = unat (generation s) + 1))"
proof -
  have z: "generation (newInterceptorStore ic) = 0"
    by (simp add: newInterceptorStore_def)
  have up: "generation s = genBefore \<and> rerr = None \<longrightarrow>
            err = None \<and> tr = [Call_Recover] \<and> generation s' = generation s + 1 \<and>
            self (interceptor s') = i'"
    using assms(2,3) by (auto simp: recover_def)
  have fail: "generation s = genBefore \<and> rerr \<noteq> None \<longrightarrow>
            err = rerr \<and> tr = [Call_Recover] \<and> generation s' = generation s \<and>
            self (interceptor s') = i'"
    using assms(2,3) by (auto simp: recover_def)
  have skip: "generation s \<noteq> genBefore \<longrightarrow> err = None \<and> tr = [] \<and> s' = s"
    using assms(3) by (auto simp: recover_def)
  have g: "generation s' =
      (if generation s = genBefore \<and> rerr = None then generation s + 1 else generation s)"
    using recover_generation [of s resp genBefore] assms(2,3) by simp
  have bounded: "unat (generation s) = n \<and>
            unat (generation s) \<le> unat (generation s') \<and>
            (generation s = genBefore \<and> rerr = None \<longrightarrow>
               unat (generation s') = unat (generation s) + 1)"
    if len: "length calls < 2 ^ 64 - 1"
  proof -
    from z len have "unat (generation (newInterceptorStore ic)) + length calls < 2 ^ 64"
      by simp
    from recoverHistory_generation [OF assms(1) this] z
    have n: "unat (generation s) = n" and le: "n \<le> length calls" by simp_all
    with len have b: "unat (generation s) < 2 ^ 64 - 1" by simp
    from g unat_generation_succ [OF b] n show ?thesis by auto
  qed
  from z up fail skip bounded show ?thesis by blast
qed

lemma demo_new_store:
  "generation (newInterceptorStore ic) = 0"
  "interceptor (newInterceptorStore ic) = ic"
  by (simp_all add: newInterceptorStore_def)

lemma demo_interceptor_fields:
  "self demo_interceptor = 0"
  "Recover demo_interceptor = (\<lambda>i resp. (None, Suc i))"
  "Apply demo_interceptor = (\<lambda>i r. r \<lparr> payload := i \<rparr>)"
  "self demo_failing_interceptor = 0"
  "Recover demo_failing_interceptor = (\<lambda>i resp. (Some (Error ''recovery failed''), i))"
  "self demo_telling_interceptor = 0"
  "Recover demo_telling_interceptor =
     (\<lambda>i resp. (Some (Error (if resp = Some demo_forbidden then ''forbidden''
                               else ''unavailable'')), i))"
  by (simp_all add: demo_interceptor_def demo_failing_interceptor_def
      demo_telling_interceptor_def)

text \<open>
  The history of the store's own test: a recovery at generation 0 and a second call
  that still names generation 0 and is skipped. On the store they leave, a recovery
  at generation 1 succeeds and a call that names generation 0 is skipped. On a new
  store whose interceptor cannot recover, the call returns the interceptor's error and
  the generation stays 0.
\<close>

theorem generation_counts_successful_recoveries_witness:
  "length [(Some demo_forbidden, 0 :: 64 word), (Some demo_forbidden, 0)] < 2 ^ 64 - 1 \<and>
   snd (recoverHistory (newInterceptorStore demo_interceptor)
     [(Some demo_forbidden, 0), (Some demo_forbidden, 0)]) = 1 \<and>
   unat (generation (fst (recoverHistory (newInterceptorStore demo_interceptor)
     [(Some demo_forbidden, 0), (Some demo_forbidden, 0)]))) = 1 \<and>
   Recover demo_interceptor 1 (Some demo_forbidden) = (None, 2) \<and>
   fst (recover (fst (recoverHistory (newInterceptorStore demo_interceptor)
     [(Some demo_forbidden, 0), (Some demo_forbidden, 0)])) (Some demo_forbidden) 1) = None \<and>
   unat (generation (fst (snd (recover (fst (recoverHistory
     (newInterceptorStore demo_interceptor)
     [(Some demo_forbidden, 0), (Some demo_forbidden, 0)])) (Some demo_forbidden) 1)))) = 2 \<and>
   recover (fst (recoverHistory (newInterceptorStore demo_interceptor)
     [(Some demo_forbidden, 0), (Some demo_forbidden, 0)])) (Some demo_forbidden) 0 =
     (None, fst (recoverHistory (newInterceptorStore demo_interceptor)
        [(Some demo_forbidden, 0), (Some demo_forbidden, 0)]), []) \<and>
   Recover demo_failing_interceptor 0 (Some demo_forbidden) =
     (Some (Error ''recovery failed''), 0) \<and>
   fst (recover (newInterceptorStore demo_failing_interceptor) (Some demo_forbidden) 0) =
     Some (Error ''recovery failed'') \<and>
   unat (generation (fst (snd (recover (newInterceptorStore demo_failing_interceptor)
     (Some demo_forbidden) 0)))) = 0"
proof -
  let ?calls = "[(Some demo_forbidden, 0 :: 64 word), (Some demo_forbidden, 0)]"
  let ?h = "recoverHistory (newInterceptorStore demo_interceptor) ?calls"
  let ?f = "newInterceptorStore demo_failing_interceptor"
  have len: "length ?calls < 2 ^ 64 - 1" by simp
  have n: "snd ?h = 1" and g: "generation (fst ?h) = 1"
    and i: "interceptor (fst ?h) = demo_interceptor \<lparr> self := 1 \<rparr>"
    by (simp_all add: recover_def demo_new_store demo_interceptor_fields)
  have h: "?h = (fst ?h, 1)" using n by (metis prod.collapse)
  have r1: "Recover (interceptor (fst ?h)) (self (interceptor (fst ?h))) (Some demo_forbidden) =
      (None, 2)"
    by (simp only: i) (simp add: demo_interceptor_def)
  have r0: "Recover demo_interceptor 1 (Some demo_forbidden) = (None, 2)"
    by (simp add: demo_interceptor_def)
  obtain err1 s1 tr1 where c1: "recover (fst ?h) (Some demo_forbidden) 1 = (err1, s1, tr1)"
    by (metis prod_cases3)
  obtain err2 s2 tr2 where c2: "recover (fst ?h) (Some demo_forbidden) 0 = (err2, s2, tr2)"
    by (metis prod_cases3)
  from generation_counts_successful_recoveries [OF h r1 c1] g len
  have "unat (generation (fst ?h)) = 1" and "err1 = None" and "unat (generation s1) = 2"
    by simp_all
  moreover from generation_counts_successful_recoveries [OF h r1 c2] g
  have "err2 = None" and "tr2 = []" and "s2 = fst ?h"
    by simp_all
  moreover
  have hf: "recoverHistory ?f [] = (?f, 0)" by simp
  have rf: "Recover (interceptor ?f) (self (interceptor ?f)) (Some demo_forbidden) =
      (Some (Error ''recovery failed''), 0)"
    by (simp add: demo_new_store demo_interceptor_fields)
  have rf0: "Recover demo_failing_interceptor 0 (Some demo_forbidden) =
      (Some (Error ''recovery failed''), 0)"
    by (simp add: demo_interceptor_fields)
  obtain err3 s3 tr3 where c3: "recover ?f (Some demo_forbidden) 0 = (err3, s3, tr3)"
    by (metis prod_cases3)
  from generation_counts_successful_recoveries [OF hf rf c3]
  have "err3 = Some (Error ''recovery failed'')" and "generation s3 = 0"
    by (simp_all add: demo_new_store)
  ultimately show ?thesis using len n r0 rf0 c1 c2 c3 by simp
qed

subsection \<open>The retry hook\<close>

text \<open>
  C6. In a run of the retry hook, \<^verbatim>\<open>Interceptor.Recover\<close> is called only if the
  generation equals the captured baseline \<open>initGen\<close> both at the hook's own read and
  in the store \<open>others 0 s\<close> that \<open>recover\<close> finds under the exclusive lock. When the
  generation differs from the baseline at the hook's read, or differs under the lock,
  \<^verbatim>\<open>Interceptor.Recover\<close> is not called and the hook leaves the store as the other
  requests made it; the request the hook leaves is the one that \<^verbatim>\<open>Interceptor.Apply\<close>
  of the wrapped interceptor makes of the request \<open>r\<close>, on the interceptor's state as
  it is in the store at that moment; and the baseline becomes the generation observed:
  the one of the hook's read in the first case, the one read after \<open>recover\<close>
  returned in the second.
\<close>

theorem recover_only_at_baseline:
  assumes "retryHook others resp s (r, initGen) = (s', (r', initGen'), tr)"
  shows "(Call_Recover \<in> set tr \<longrightarrow>
            getGeneration s = initGen \<and> getGeneration (others 0 s) = initGen) \<and>
         (getGeneration s \<noteq> initGen \<longrightarrow>
            tr = [Call_Apply] \<and>
            r' = Apply (interceptor (others 0 s)) (self (interceptor (others 0 s))) r \<and>
            initGen' = getGeneration s \<and> s' = others 0 s) \<and>
         (getGeneration s = initGen \<and> getGeneration (others 0 s) \<noteq> initGen \<longrightarrow>
            tr = [Call_Apply] \<and>
            r' = Apply (interceptor (others 1 (others 0 s)))
                   (self (interceptor (others 1 (others 0 s)))) r \<and>
            s' = others 2 (others 1 (others 0 s)) \<and> initGen' = getGeneration s')"
  using assms
  by (auto simp: retryHook_def recover_def apply_store_def getGeneration_def Let_def
      split: prod.splits if_splits)

lemma retryHook_result:
  obtains s' r' g' tr where "retryHook others resp s env = (s', (r', g'), tr)"
  by (cases "retryHook others resp s env") auto

text \<open>
  Three runs of the hook on a new store with the baseline 0, for a request whose
  payload is 0. Alone, the hook recovers. With another request recovering while it
  waits for the lock, it skips, and it leaves the request with the payload 1, the
  state that the other request's recovery made, and the baseline 1. On the store the
  first run left, at generation 1, it skips at its own read and again leaves the
  payload 1 and the baseline 1.
\<close>

theorem recover_only_at_baseline_witness:
  "payload demo_request = 0 \<and>
   snd (snd (retryHook alone (Some demo_forbidden) (newInterceptorStore demo_interceptor)
     (demo_request, 0))) = [Call_Recover, Call_Apply] \<and>
   getGeneration (alone 0 (newInterceptorStore demo_interceptor)) = 0 \<and>
   getGeneration (demo_others 0 (newInterceptorStore demo_interceptor)) = 1 \<and>
   retryHook demo_others (Some demo_forbidden) (newInterceptorStore demo_interceptor)
     (demo_request, 0) =
     (demo_others 0 (newInterceptorStore demo_interceptor),
      (demo_request \<lparr> payload := 1 \<rparr>, 1), [Call_Apply]) \<and>
   getGeneration (fst (retryHook alone (Some demo_forbidden)
     (newInterceptorStore demo_interceptor) (demo_request, 0))) = 1 \<and>
   retryHook alone (Some demo_forbidden)
     (fst (retryHook alone (Some demo_forbidden) (newInterceptorStore demo_interceptor)
        (demo_request, 0)))
     (demo_request, 0) =
     (fst (retryHook alone (Some demo_forbidden) (newInterceptorStore demo_interceptor)
        (demo_request, 0)),
      (demo_request \<lparr> payload := 1 \<rparr>, 1), [Call_Apply])"
proof -
  let ?s0 = "newInterceptorStore demo_interceptor"
  let ?resp = "Some demo_forbidden"
  obtain s1 r1 g1 tr1 where
    h1: "retryHook alone ?resp ?s0 (demo_request, 0) = (s1, (r1, g1), tr1)"
    by (rule retryHook_result)
  obtain s2 r2 g2 tr2 where
    h2: "retryHook demo_others ?resp ?s0 (demo_request, 0) = (s2, (r2, g2), tr2)"
    by (rule retryHook_result)
  obtain s3 r3 g3 tr3 where
    h3: "retryHook alone ?resp s1 (demo_request, 0) = (s3, (r3, g3), tr3)"
    by (rule retryHook_result)
  have p: "payload demo_request = 0" by (simp add: demo_request_def)
  have t1: "tr1 = [Call_Recover, Call_Apply]" and e1: "getGeneration s1 = 1"
    and i1: "interceptor s1 = demo_interceptor \<lparr> self := 1 \<rparr>"
    using h1 by (auto simp: retryHook_def recover_def getGeneration_def alone_def Let_def
        demo_new_store demo_interceptor_fields)
  have a0: "getGeneration (alone 0 ?s0) = 0"
    by (simp add: alone_def getGeneration_def demo_new_store)
  have o0: "getGeneration (demo_others 0 ?s0) = 1"
    and io: "interceptor (demo_others 0 ?s0) = demo_interceptor \<lparr> self := 1 \<rparr>"
    by (simp_all add: demo_others_def recover_def getGeneration_def demo_new_store
        demo_interceptor_fields)
  have o12: "\<And>x. demo_others 2 x = x" "\<And>x. demo_others 1 x = x"
    by (simp_all add: demo_others_def)
  have ap: "Apply (demo_interceptor \<lparr> self := 1 \<rparr>) (self (demo_interceptor \<lparr> self := 1 \<rparr>))
      demo_request = demo_request \<lparr> payload := 1 \<rparr>"
    by (simp add: demo_interceptor_def)
  have g0: "getGeneration ?s0 = 0" by (simp add: getGeneration_def demo_new_store)
  from recover_only_at_baseline [OF h1] t1
  have "getGeneration (alone 0 ?s0) = 0" by simp
  moreover from recover_only_at_baseline [OF h2] g0 o0
  have "tr2 = [Call_Apply]" and "g2 = getGeneration s2"
    and "s2 = demo_others 2 (demo_others 1 (demo_others 0 ?s0))"
    and "r2 = Apply (interceptor (demo_others 1 (demo_others 0 ?s0)))
                (self (interceptor (demo_others 1 (demo_others 0 ?s0)))) demo_request"
    by simp_all
  then have "tr2 = [Call_Apply]" and "g2 = 1" and "s2 = demo_others 0 ?s0"
    and "r2 = demo_request \<lparr> payload := 1 \<rparr>"
    using o0 by (simp_all only: o12 io ap)
  moreover from recover_only_at_baseline [OF h3] e1
  have "tr3 = [Call_Apply]" and "g3 = 1" and "s3 = alone 0 s1"
    and "r3 = Apply (interceptor (alone 0 s1)) (self (interceptor (alone 0 s1))) demo_request"
    by simp_all
  then have "tr3 = [Call_Apply]" and "g3 = 1" and "s3 = s1"
    and "r3 = demo_request \<lparr> payload := 1 \<rparr>"
    by (simp_all only: alone_def i1 ap)
  ultimately show ?thesis using h1 h2 h3 t1 e1 o0 p by simp
qed

text \<open>
  C7. Let a run of the retry hook find the generation at its baseline, at its own read
  and under the lock, and let \<^verbatim>\<open>Interceptor.Recover\<close> return the error \<open>e\<close> and
  the state \<open>i'\<close>. Then \<open>recover\<close> returns \<open>e\<close> to the hook and leaves the
  generation as it found it. The hook drops the error: what it leaves is the store with
  the state \<open>i'\<close>, the request as it was and the baseline as it was, whatever \<open>e\<close>
  is; it neither applies the state nor hands the error on. A later run of the hook with
  that baseline (of this request or of another), on the store as this run left it and
  up to the lock, calls \<^verbatim>\<open>Interceptor.Recover\<close> again.
\<close>

theorem failed_recovery_can_be_retried:
  assumes "getGeneration s = initGen"
    and "getGeneration (others 0 s) = initGen"
    and "Recover (interceptor (others 0 s)) (self (interceptor (others 0 s))) resp = (Some e, i')"
    and "getGeneration (others2 0
           ((others 0 s) \<lparr> interceptor := (interceptor (others 0 s)) \<lparr> self := i' \<rparr> \<rparr>)) =
         initGen"
  shows "fst (recover (others 0 s) resp initGen) = Some e \<and>
         getGeneration (fst (snd (recover (others 0 s) resp initGen))) = initGen \<and>
         retryHook others resp s (r, initGen) =
           ((others 0 s) \<lparr> interceptor := (interceptor (others 0 s)) \<lparr> self := i' \<rparr> \<rparr>,
            (r, initGen), [Call_Recover]) \<and>
         Call_Recover \<in> set (snd (snd (retryHook others2 resp2
           (fst (retryHook others resp s (r, initGen))) (r2, initGen))))"
proof -
  let ?s1 = "others 0 s"
  let ?s' = "?s1 \<lparr> interceptor := (interceptor ?s1) \<lparr> self := i' \<rparr> \<rparr>"
  from assms(2)
  have g: "generation ?s1 = initGen" by (simp add: getGeneration_def)
  have rc: "recover ?s1 resp initGen = (Some e, ?s', [Call_Recover])"
    using recover_call [OF g assms(3)] by simp
  from assms(1) rc
  have h: "retryHook others resp s (r, initGen) = (?s', (r, initGen), [Call_Recover])"
    by (simp add: retryHook_def Let_def)
  from g have g': "getGeneration ?s' = initGen" by (simp add: getGeneration_def)
  from assms(4) have g2: "generation (others2 0 ?s') = initGen"
    by (simp add: getGeneration_def)
  have "Call_Recover \<in> set (snd (snd (retryHook others2 resp2 ?s' (r2, initGen))))"
    using g' g2
    by (auto simp: retryHook_def Let_def recover_def split: prod.splits)
  with rc h g' show ?thesis by simp
qed

text \<open>
  A hook that finds the generation at its baseline 0 on a new store whose interceptor
  cannot recover: \<open>recover\<close> returns the interceptor's error, the hook leaves the
  store, the request and the baseline as they were, and the next run of the hook, for
  another response, calls \<^verbatim>\<open>Interceptor.Recover\<close> again.
\<close>

theorem failed_recovery_can_be_retried_witness:
  "fst (recover (newInterceptorStore demo_failing_interceptor) (Some demo_forbidden) 0) =
     Some (Error ''recovery failed'') \<and>
   retryHook alone (Some demo_forbidden) (newInterceptorStore demo_failing_interceptor)
     (demo_request, 0) =
     (newInterceptorStore demo_failing_interceptor, (demo_request, 0), [Call_Recover]) \<and>
   Call_Recover \<in> set (snd (snd (retryHook alone (Some demo_unavailable)
     (newInterceptorStore demo_failing_interceptor) (demo_request, 0))))"
proof -
  let ?s = "newInterceptorStore demo_failing_interceptor"
  let ?resp = "Some demo_forbidden"
  have a1: "getGeneration ?s = 0" by (simp add: getGeneration_def demo_new_store)
  have a2: "getGeneration (alone 0 ?s) = 0" by (simp add: alone_def a1)
  have a3: "Recover (interceptor (alone 0 ?s)) (self (interceptor (alone 0 ?s))) ?resp =
      (Some (Error ''recovery failed''), 0)"
    by (simp add: alone_def demo_new_store demo_interceptor_fields)
  have same: "(alone 0 ?s) \<lparr> interceptor := (interceptor (alone 0 ?s)) \<lparr> self := 0 \<rparr> \<rparr> = ?s"
    by (simp add: alone_def newInterceptorStore_def demo_failing_interceptor_def
        demo_interceptor_def)
  have a4: "getGeneration (alone 0
      ((alone 0 ?s) \<lparr> interceptor := (interceptor (alone 0 ?s)) \<lparr> self := 0 \<rparr> \<rparr>)) = 0"
    by (simp only: same a2)
  from failed_recovery_can_be_retried
    [where others = alone and ?others2.0 = alone and ?resp2.0 = "Some demo_unavailable"
       and ?r2.0 = demo_request and r = demo_request, OF a1 a2 a3 a4]
  have "fst (recover (alone 0 ?s) ?resp 0) = Some (Error ''recovery failed'')"
    and "retryHook alone ?resp ?s (demo_request, 0) =
       ((alone 0 ?s) \<lparr> interceptor := (interceptor (alone 0 ?s)) \<lparr> self := 0 \<rparr> \<rparr>,
        (demo_request, 0), [Call_Recover])"
    and "Call_Recover \<in> set (snd (snd (retryHook alone (Some demo_unavailable)
       (fst (retryHook alone ?resp ?s (demo_request, 0))) (demo_request, 0))))"
    by blast+
  then show ?thesis by (simp add: same) (simp add: alone_def)
qed

text \<open>
  The error of a failed recovery does not leave the hook. The recovery of this
  interceptor fails with one error for the response 403 and with another for the
  response 500; \<open>recover\<close> returns each to the hook, and the two runs of the hook
  leave the same store, the same request, the same baseline and the same calls.
\<close>

theorem recovery_error_stays_in_hook:
  "fst (recover (newInterceptorStore demo_telling_interceptor) (Some demo_forbidden) 0) =
     Some (Error ''forbidden'') \<and>
   fst (recover (newInterceptorStore demo_telling_interceptor) (Some demo_unavailable) 0) =
     Some (Error ''unavailable'') \<and>
   retryHook alone (Some demo_forbidden) (newInterceptorStore demo_telling_interceptor)
     (demo_request, 0) =
     (newInterceptorStore demo_telling_interceptor, (demo_request, 0), [Call_Recover]) \<and>
   retryHook alone (Some demo_unavailable) (newInterceptorStore demo_telling_interceptor)
     (demo_request, 0) =
     (newInterceptorStore demo_telling_interceptor, (demo_request, 0), [Call_Recover])"
proof -
  let ?s = "newInterceptorStore demo_telling_interceptor"
  have ne: "demo_unavailable \<noteq> demo_forbidden"
    by (simp add: demo_unavailable_def demo_forbidden_def demo_ok_def)
  have same: "?s \<lparr> interceptor := demo_telling_interceptor \<lparr> self := 0 \<rparr> \<rparr> = ?s"
    by (simp add: newInterceptorStore_def demo_telling_interceptor_def demo_interceptor_def)
  have r1: "recover ?s (Some demo_forbidden) 0 = (Some (Error ''forbidden''), ?s, [Call_Recover])"
    by (simp add: recover_def demo_new_store demo_interceptor_fields same)
  have r2: "recover ?s (Some demo_unavailable) 0 =
      (Some (Error ''unavailable''), ?s, [Call_Recover])"
    by (simp add: recover_def demo_new_store demo_interceptor_fields same ne)
  have g: "getGeneration ?s = 0" by (simp add: getGeneration_def demo_new_store)
  have h1: "retryHook alone (Some demo_forbidden) ?s (demo_request, 0) =
      (?s, (demo_request, 0), [Call_Recover])"
    by (simp add: retryHook_def Let_def alone_def g r1)
  have h2: "retryHook alone (Some demo_unavailable) ?s (demo_request, 0) =
      (?s, (demo_request, 0), [Call_Recover])"
    by (simp add: retryHook_def Let_def alone_def g r2)
  from r1 r2 h1 h2 show ?thesis by simp
qed

section \<open>Properties of the request builders\<close>












section \<open>Properties of concurrent callers\<close>

subsection \<open>The steps, one by one\<close>

lemma step_Start:
  "pcs st i = Start \<Longrightarrow> Now rt (sys_world st) = (now, w') \<Longrightarrow>
   gvt_step rt i st =
     st \<lparr> sys_world := w', pcs := (pcs st)(i := Entered now),
          events := events st @ [Ev_Now now] \<rparr>"
  by (simp add: gvt_step_def)

lemma step_Entered:
  "pcs st i = Entered now \<Longrightarrow>
   gvt_step rt i st =
     (if time_Before (tokenExpiration (sys_store st)) (time_Add now (authRefreshBuffer (sys_store st)))
      then st \<lparr> pcs := (pcs st)(i := Waiting now) \<rparr>
      else st \<lparr> pcs := (pcs st)(i := Done (token (sys_store st), None)) \<rparr>)"
  by (simp add: gvt_step_def getTokenAndCheckExpiryAt_def)

lemma step_Waiting:
  "pcs st i = Waiting now \<Longrightarrow>
   gvt_step rt i st =
     (if refreshMu st then st
      else st \<lparr> refreshMu := True, pcs := (pcs st)(i := Locked now) \<rparr>)"
  by (simp add: gvt_step_def)

lemma step_Locked:
  "pcs st i = Locked now \<Longrightarrow>
   gvt_step rt i st =
     (if time_Before (tokenExpiration (sys_store st)) (time_Add now (authRefreshBuffer (sys_store st)))
      then st \<lparr> pcs := (pcs st)(i := Fetching) \<rparr>
      else st \<lparr> pcs := (pcs st)(i := Returning (token (sys_store st), None)) \<rparr>)"
  by (simp add: gvt_step_def getTokenAndCheckExpiryAt_def)

lemma step_Fetching:
  "pcs st i = Fetching \<Longrightarrow>
   identityReader (sys_store st) (sys_world st) = ((identity, err), w') \<Longrightarrow>
   gvt_step rt i st =
     st \<lparr> sys_world := w',
          pcs := (pcs st)(i := (if err \<noteq> None then Clearing err else Refreshing identity)),
          events := events st @ [Ev_Get (identity, err)] \<rparr>"
  by (simp add: gvt_step_def)

lemma step_Refreshing:
  "pcs st i = Refreshing identity \<Longrightarrow>
   refreshTokenFunc (sys_store st) identity (sys_world st) = ((newToken, err), w') \<Longrightarrow>
   gvt_step rt i st =
     st \<lparr> sys_world := w',
          pcs := (pcs st)(i := (if err \<noteq> None then Clearing err else Storing newToken)),
          events := events st @ [Ev_Refresh (newToken, err)] \<rparr>"
  by (simp add: gvt_step_def)

lemma step_Clearing:
  "pcs st i = Clearing err \<Longrightarrow>
   gvt_step rt i st =
     st \<lparr> sys_store := setBearerToken rt [] (sys_store st),
          pcs := (pcs st)(i := Returning ([], err)) \<rparr>"
  by (simp add: gvt_step_def)

lemma step_Storing:
  "pcs st i = Storing newToken \<Longrightarrow>
   gvt_step rt i st =
     st \<lparr> sys_store := setBearerToken rt newToken (sys_store st),
          pcs := (pcs st)(i := Returning (newToken, None)) \<rparr>"
  by (simp add: gvt_step_def)

lemma step_Returning:
  "pcs st i = Returning res \<Longrightarrow>
   gvt_step rt i st = st \<lparr> refreshMu := False, pcs := (pcs st)(i := Done res) \<rparr>"
  by (simp add: gvt_step_def)

lemma step_Done: "pcs st i = Done res \<Longrightarrow> gvt_step rt i st = st"
  by (simp add: gvt_step_def)

lemmas gvt_steps =
  step_Start step_Entered step_Waiting step_Locked step_Fetching step_Refreshing
  step_Clearing step_Storing step_Returning step_Done

lemma gvt_run_Cons: "gvt_run rt (i # sched) st = gvt_run rt sched (gvt_step rt i st)"
  by (simp add: gvt_run_def)

lemma gvt_run_Nil: "gvt_run rt [] st = st"
  by (simp add: gvt_run_def)

lemma gvt_run_alone:
  assumes "getValidToken rt id as w = (res, as', w', cs)"
    and "st = gvt_run rt [i, i, i, i, i, i, i, i] (gvt_init as w)"
  shows "pcs st i = Done res \<and> sys_store st = as' \<and> sys_world st = w' \<and> \<not> refreshMu st"
proof -
  obtain now w1 where n: "Now rt w = (now, w1)" by (metis surj_pair)
  obtain identity err w3 where g: "identityReader as w1 = ((identity, err), w3)"
    by (metis surj_pair)
  obtain newToken err2 w4 where r: "refreshTokenFunc as identity w3 = ((newToken, err2), w4)"
    by (metis surj_pair)
  show ?thesis
  proof (cases "time_Before (tokenExpiration as) (time_Add now (authRefreshBuffer as))")
    case False
    from getValidToken_fast [OF n False, of id] assms(1)
    have "res = (token as, None)" "as' = as" "w' = w1" by simp_all
    with assms(2) n False show ?thesis
      by (simp add: gvt_run_Cons gvt_run_Nil gvt_steps gvt_init_def)
  next
    case True
    have l: "id (as, w1) = (as, w1)" by simp
    note v = getValidToken_slow [where waitLock = id, OF n True l True g r]
    show ?thesis
    proof (cases "err = None")
      case False
      with v assms(1) have "res = ([], err)" "as' = setBearerToken rt [] as" "w' = w3"
        by simp_all
      with assms(2) n g True False show ?thesis
        by (simp add: gvt_run_Cons gvt_run_Nil gvt_steps gvt_init_def)
    next
      case e: True
      show ?thesis
      proof (cases "err2 = None")
        case False
        with v e assms(1) have "res = ([], err2)" "as' = setBearerToken rt [] as" "w' = w4"
          by simp_all
        with assms(2) n g r True e False show ?thesis
          by (simp add: gvt_run_Cons gvt_run_Nil gvt_steps gvt_init_def)
      next
        case e2: True
        with v e assms(1) have "res = (newToken, None)" "as' = setBearerToken rt newToken as"
          "w' = w4" by simp_all
        with assms(2) n g r True e e2 show ?thesis
          by (simp add: gvt_run_Cons gvt_run_Nil gvt_steps gvt_init_def)
      qed
    qed
  qed
qed


subsection \<open>Mutual exclusion and the three phases of a refresh\<close>

lemma refreshes_append: "refreshes (evs @ evs') = refreshes evs @ refreshes evs'"
  by (induction evs rule: refreshes.induct) simp_all

lemma gvt_step_events: "\<exists>evs. events (gvt_step rt i st) = events st @ evs"
  by (auto simp: gvt_step_def split: gvt_pc.splits prod.splits)


lemma mutex_keep:
  assumes "mutex st" and "pcs st' = (pcs st)(i := pc')" and "refreshMu st' = refreshMu st"
    and "holds_refreshMu pc' = holds_refreshMu (pcs st i)"
  shows "mutex st'"
proof -
  have h: "holds_refreshMu (pcs st' j) = holds_refreshMu (pcs st j)" for j
    using assms(2,4) by simp
  with assms(1,3) show ?thesis by (simp add: mutex_def)
qed

lemma mutex_acquire:
  assumes "mutex st" and "\<not> refreshMu st" and "pcs st' = (pcs st)(i := pc')"
    and "holds_refreshMu pc'" and "refreshMu st'"
  shows "mutex st'"
proof -
  from assms(1,2) have none: "\<not> holds_refreshMu (pcs st j)" for j
    by (auto simp: mutex_def)
  have "holds_refreshMu (pcs st' j) \<longleftrightarrow> j = i" for j
    using assms(3,4) none by simp
  with assms(5) show ?thesis by (auto simp: mutex_def)
qed

lemma mutex_release:
  assumes "mutex st" and "holds_refreshMu (pcs st i)" and "pcs st' = (pcs st)(i := pc')"
    and "\<not> holds_refreshMu pc'" and "\<not> refreshMu st'"
  shows "mutex st'"
proof -
  from assms(1,2) have only: "holds_refreshMu (pcs st j) \<longleftrightarrow> j = i" for j
    by (auto simp: mutex_def)
  have "\<not> holds_refreshMu (pcs st' j)" for j
    using assms(3,4) only by simp
  with assms(5) show ?thesis by (simp add: mutex_def)
qed

lemma mutex_others_outside:
  assumes "mutex st" and "holds_refreshMu (pcs st i)" and "j \<noteq> i"
  shows "\<not> holds_refreshMu (pcs st j)"
  using assms by (auto simp: mutex_def)

lemma before_refresh_outside:
  "before_refresh pc \<Longrightarrow> \<not> holds_refreshMu pc \<Longrightarrow> outside_lock pc"
  by (cases pc) simp_all

lemma outside_lock_after: "outside_lock pc \<Longrightarrow> after_refresh tok pc"
  by (cases pc) simp_all

lemma outside_lock_free: "outside_lock pc \<Longrightarrow> \<not> holds_refreshMu pc"
  by (cases pc) simp_all


lemma refreshes_member: "r \<in> set (refreshes evs) \<Longrightarrow> Ev_Refresh r \<in> set evs"
  by (induction evs rule: refreshes.induct) auto

lemma phase_cases:
  assumes "phase T0 T1 st"
  obtains (before) "not_refreshed T0 st"
    | (during) tok k where "storing T0 tok k st"
    | (after) tok where "refreshed T1 tok st"
  using assms unfolding phase_def by blast

lemma storing_only_holder:
  assumes "storing T0 tok k st" and "holds_refreshMu (pcs st i)"
  shows "i = k"
  using assms by (auto simp: storing_def dest: outside_lock_free)

lemma gvt_inv_step:
  assumes "gvt_inv T0 T1 buffer st"
    and "list_all (calm rt T0 T1 buffer) (events (gvt_step rt i st))"
  shows "gvt_inv T0 T1 buffer (gvt_step rt i st)"
proof -
  from assms(1) have buf: "authRefreshBuffer (sys_store st) = buffer"
    and ent: "\<And>j. entry_ok T0 T1 (pcs st j)" and mx: "mutex st" and ph: "phase T0 T1 st"
    by (simp_all add: gvt_inv_def)
  show ?thesis
  proof (cases "pcs st i")
    case Start
    obtain now w' where n: "Now rt (sys_world st) = (now, w')" by (metis surj_pair)
    let ?st = "st \<lparr> sys_world := w', pcs := (pcs st)(i := Entered now),
                  events := events st @ [Ev_Now now] \<rparr>"
    have st': "gvt_step rt i st = ?st" using Start n by (simp add: gvt_step_def)
    from assms(2) st' have c: "T0 \<le> now \<and> now \<le> T1" by simp
    have "mutex ?st" by (rule mutex_keep [OF mx, of _ i "Entered now"]) (simp_all add: Start)
    moreover have "\<forall>j. entry_ok T0 T1 (pcs ?st j)" using ent c by simp
    moreover from ph have "phase T0 T1 ?st"
    proof (cases rule: phase_cases)
      case before
      then have "not_refreshed T0 ?st" by (simp add: not_refreshed_def refreshes_append)
      then show ?thesis by (simp add: phase_def)
    next
      case (during tok k)
      with Start have "storing T0 tok k ?st"
        by (auto simp: storing_def refreshes_append)
      then show ?thesis unfolding phase_def by blast
    next
      case (after tok)
      then have "refreshed T1 tok ?st" by (simp add: refreshed_def refreshes_append)
      then show ?thesis unfolding phase_def by blast
    qed
    ultimately show ?thesis using buf by (simp add: gvt_inv_def st')
  next
    case (Entered now)
    from ent [of i] Entered have c: "T0 \<le> now" "now \<le> T1" by simp_all
    from ph show ?thesis
    proof (cases rule: phase_cases)
      case before
      then have stale: "getTokenAndCheckExpiryAt (sys_store st) now = (token (sys_store st), True)"
        using c by (simp add: not_refreshed_def getTokenAndCheckExpiryAt_def time_Before_def
            time_Add_def)
      let ?st = "st \<lparr> pcs := (pcs st)(i := Waiting now) \<rparr>"
      have st': "gvt_step rt i st = ?st"
        using Entered stale by (simp add: gvt_step_def)
      have "mutex ?st" by (rule mutex_keep [OF mx, of _ i "Waiting now"]) (simp_all add: Entered)
      moreover have "\<forall>j. entry_ok T0 T1 (pcs ?st j)" using ent c by simp
      moreover from before have "not_refreshed T0 ?st" by (simp add: not_refreshed_def)
      ultimately show ?thesis using buf by (simp add: gvt_inv_def st' phase_def)
    next
      case (during tok k)
      then have stale: "getTokenAndCheckExpiryAt (sys_store st) now = (token (sys_store st), True)"
        using c by (simp add: storing_def getTokenAndCheckExpiryAt_def time_Before_def
            time_Add_def)
      let ?st = "st \<lparr> pcs := (pcs st)(i := Waiting now) \<rparr>"
      have st': "gvt_step rt i st = ?st"
        using Entered stale by (simp add: gvt_step_def)
      have "mutex ?st" by (rule mutex_keep [OF mx, of _ i "Waiting now"]) (simp_all add: Entered)
      moreover have "\<forall>j. entry_ok T0 T1 (pcs ?st j)" using ent c by simp
      moreover from during Entered have "storing T0 tok k ?st"
        by (auto simp: storing_def)
      then have "phase T0 T1 ?st" unfolding phase_def by blast
      ultimately show ?thesis using buf by (simp add: gvt_inv_def st')
    next
      case (after tok)
      then have fresh: "getTokenAndCheckExpiryAt (sys_store st) now = (tok, False)"
        using c by (simp add: refreshed_def getTokenAndCheckExpiryAt_def time_Before_def
            time_Add_def)
      let ?st = "st \<lparr> pcs := (pcs st)(i := Done (tok, None)) \<rparr>"
      have st': "gvt_step rt i st = ?st"
        using Entered fresh by (simp add: gvt_step_def)
      have "mutex ?st"
        by (rule mutex_keep [OF mx, of _ i "Done (tok, None)"]) (simp_all add: Entered)
      moreover have "\<forall>j. entry_ok T0 T1 (pcs ?st j)" using ent by simp
      moreover from after have "refreshed T1 tok ?st" by (simp add: refreshed_def)
      then have "phase T0 T1 ?st" unfolding phase_def by blast
      ultimately show ?thesis using buf by (simp add: gvt_inv_def st')
    qed
  next
    case (Waiting now)
    show ?thesis
    proof (cases "refreshMu st")
      case True
      with Waiting have "gvt_step rt i st = st" by (simp add: gvt_step_def)
      with assms(1) show ?thesis by simp
    next
      case False
      let ?st = "st \<lparr> refreshMu := True, pcs := (pcs st)(i := Locked now) \<rparr>"
      have st': "gvt_step rt i st = ?st" using Waiting False by (simp add: gvt_step_def)
      have m: "mutex ?st" by (rule mutex_acquire [OF mx False, of _ i "Locked now"]) simp_all
      have e: "\<forall>j. entry_ok T0 T1 (pcs ?st j)" using ent [of i] ent Waiting by simp
      from ph have "phase T0 T1 ?st"
      proof (cases rule: phase_cases)
        case before
        then have "not_refreshed T0 ?st" by (simp add: not_refreshed_def)
        then show ?thesis by (simp add: phase_def)
      next
        case (during tok k)
        then have "holds_refreshMu (pcs st k)" by (simp add: storing_def)
        with mx False show ?thesis by (auto simp: mutex_def)
      next
        case (after tok)
        then have "refreshed T1 tok ?st" by (simp add: refreshed_def)
        then show ?thesis unfolding phase_def by blast
      qed
      with m e buf show ?thesis by (simp add: gvt_inv_def st')
    qed
  next
    case (Locked now)
    from ent [of i] Locked have c: "T0 \<le> now" "now \<le> T1" by simp_all
    have hi: "holds_refreshMu (pcs st i)" using Locked by simp
    from ph show ?thesis
    proof (cases rule: phase_cases)
      case before
      then have stale: "getTokenAndCheckExpiryAt (sys_store st) now = (token (sys_store st), True)"
        using c by (simp add: not_refreshed_def getTokenAndCheckExpiryAt_def time_Before_def
            time_Add_def)
      let ?st = "st \<lparr> pcs := (pcs st)(i := Fetching) \<rparr>"
      have st': "gvt_step rt i st = ?st"
        using Locked stale by (simp add: gvt_step_def)
      have "mutex ?st" by (rule mutex_keep [OF mx, of _ i Fetching]) (simp_all add: Locked)
      moreover have "\<forall>j. entry_ok T0 T1 (pcs ?st j)" using ent by simp
      moreover from before have "not_refreshed T0 ?st" by (simp add: not_refreshed_def)
      ultimately show ?thesis using buf by (simp add: gvt_inv_def st' phase_def)
    next
      case (during tok k)
      from storing_only_holder [OF during hi] during Locked show ?thesis
        by (simp add: storing_def)
    next
      case (after tok)
      then have fresh: "getTokenAndCheckExpiryAt (sys_store st) now = (tok, False)"
        using c by (simp add: refreshed_def getTokenAndCheckExpiryAt_def time_Before_def
            time_Add_def)
      let ?st = "st \<lparr> pcs := (pcs st)(i := Returning (tok, None)) \<rparr>"
      have st': "gvt_step rt i st = ?st"
        using Locked fresh by (simp add: gvt_step_def)
      have "mutex ?st"
        by (rule mutex_keep [OF mx, of _ i "Returning (tok, None)"]) (simp_all add: Locked)
      moreover have "\<forall>j. entry_ok T0 T1 (pcs ?st j)" using ent by simp
      moreover from after have "refreshed T1 tok ?st" by (simp add: refreshed_def)
      then have "phase T0 T1 ?st" unfolding phase_def by blast
      ultimately show ?thesis using buf by (simp add: gvt_inv_def st')
    qed
  next
    case Fetching
    have hi: "holds_refreshMu (pcs st i)" using Fetching by simp
    obtain identity err w' where
      g: "identityReader (sys_store st) (sys_world st) = ((identity, err), w')"
      by (metis surj_pair)
    let ?pc = "if err \<noteq> None then Clearing err else Refreshing identity"
    let ?st = "st \<lparr> sys_world := w', pcs := (pcs st)(i := ?pc),
                  events := events st @ [Ev_Get (identity, err)] \<rparr>"
    have st': "gvt_step rt i st = ?st" using Fetching g by (simp add: gvt_step_def)
    from assms(2) st' have ok: "err = None" by simp
    have m: "mutex ?st" by (rule mutex_keep [OF mx, of _ i ?pc]) (simp_all add: Fetching)
    have e: "\<forall>j. entry_ok T0 T1 (pcs ?st j)" using ent ok by simp
    from ph have "phase T0 T1 ?st"
    proof (cases rule: phase_cases)
      case before
      then have "not_refreshed T0 ?st"
        using ok by (simp add: not_refreshed_def refreshes_append)
      then show ?thesis by (simp add: phase_def)
    next
      case (during tok k)
      from storing_only_holder [OF during hi] during Fetching show ?thesis
        by (simp add: storing_def)
    next
      case (after tok)
      then have "after_refresh tok (pcs st i)" by (simp add: refreshed_def)
      with Fetching show ?thesis by simp
    qed
    with m e buf show ?thesis by (simp add: gvt_inv_def st')
  next
    case (Refreshing identity)
    have hi: "holds_refreshMu (pcs st i)" using Refreshing by simp
    obtain newToken err w' where
      g: "refreshTokenFunc (sys_store st) identity (sys_world st) = ((newToken, err), w')"
      by (metis surj_pair)
    let ?pc = "if err \<noteq> None then Clearing err else Storing newToken"
    let ?st = "st \<lparr> sys_world := w', pcs := (pcs st)(i := ?pc),
                  events := events st @ [Ev_Refresh (newToken, err)] \<rparr>"
    have st': "gvt_step rt i st = ?st" using Refreshing g by (simp add: gvt_step_def)
    from assms(2) st' have ok: "err = None" by simp
    have m: "mutex ?st" by (rule mutex_keep [OF mx, of _ i ?pc]) (simp_all add: Refreshing)
    have e: "\<forall>j. entry_ok T0 T1 (pcs ?st j)" using ent ok by simp
    from ph have "phase T0 T1 ?st"
    proof (cases rule: phase_cases)
      case before
      have "outside_lock (pcs st j)" if "j \<noteq> i" for j
        using before mutex_others_outside [OF mx hi that]
        by (simp add: not_refreshed_def before_refresh_outside)
      with before ok have "storing T0 newToken i ?st"
        by (simp add: storing_def not_refreshed_def refreshes_append)
      then show ?thesis unfolding phase_def by blast
    next
      case (during tok k)
      from storing_only_holder [OF during hi] during Refreshing show ?thesis
        by (simp add: storing_def)
    next
      case (after tok)
      then have "after_refresh tok (pcs st i)" by (simp add: refreshed_def)
      with Refreshing show ?thesis by simp
    qed
    with m e buf show ?thesis by (simp add: gvt_inv_def st')
  next
    case (Clearing err)
    have hi: "holds_refreshMu (pcs st i)" using Clearing by simp
    from ph show ?thesis
    proof (cases rule: phase_cases)
      case before
      then have "before_refresh (pcs st i)" by (simp add: not_refreshed_def)
      with Clearing show ?thesis by simp
    next
      case (during tok k)
      from storing_only_holder [OF during hi] during Clearing show ?thesis
        by (simp add: storing_def)
    next
      case (after tok)
      then have "after_refresh tok (pcs st i)" by (simp add: refreshed_def)
      with Clearing show ?thesis by simp
    qed
  next
    case (Storing newToken)
    have hi: "holds_refreshMu (pcs st i)" using Storing by simp
    let ?st = "st \<lparr> sys_store := setBearerToken rt newToken (sys_store st),
                  pcs := (pcs st)(i := Returning (newToken, None)) \<rparr>"
    have st': "gvt_step rt i st = ?st" using Storing by (simp add: gvt_step_def)
    have m: "mutex ?st"
      by (rule mutex_keep [OF mx, of _ i "Returning (newToken, None)"]) (simp_all add: Storing)
    have e: "\<forall>j. entry_ok T0 T1 (pcs ?st j)" using ent by simp
    have b: "authRefreshBuffer (sys_store ?st) = buffer" using buf by (simp add: setBearerToken_def)
    from ph have "phase T0 T1 ?st"
    proof (cases rule: phase_cases)
      case before
      then have "before_refresh (pcs st i)" by (simp add: not_refreshed_def)
      with Storing show ?thesis by simp
    next
      case (during tok k)
      from storing_only_holder [OF during hi] have ik: "i = k" .
      with during Storing have tk: "newToken = tok" by (simp add: storing_def)
      from during have "(tok, None) \<in> set (refreshes (events st))" by (simp add: storing_def)
      then have "Ev_Refresh (tok, None) \<in> set (events st)" by (rule refreshes_member)
      moreover from assms(2) st' have "list_all (calm rt T0 T1 buffer) (events st)" by simp
      ultimately have "calm rt T0 T1 buffer (Ev_Refresh (tok, None))"
        unfolding list_all_iff by blast
      then have fresh: "T1 + buffer \<le> extractTokenExpiration rt tok" by simp
      have "after_refresh tok (pcs ?st j)" for j
        using during ik tk by (simp add: storing_def outside_lock_after)
      with during fresh buf tk have "refreshed T1 tok ?st"
        by (simp add: refreshed_def storing_def setBearerToken_def)
      then show ?thesis unfolding phase_def by blast
    next
      case (after tok)
      then have "after_refresh tok (pcs st i)" by (simp add: refreshed_def)
      with Storing show ?thesis by simp
    qed
    with m e b show ?thesis by (simp add: gvt_inv_def st')
  next
    case (Returning res)
    have hi: "holds_refreshMu (pcs st i)" using Returning by simp
    let ?st = "st \<lparr> refreshMu := False, pcs := (pcs st)(i := Done res) \<rparr>"
    have st': "gvt_step rt i st = ?st" using Returning by (simp add: gvt_step_def)
    have m: "mutex ?st" by (rule mutex_release [OF mx hi, of _ "Done res"]) simp_all
    have e: "\<forall>j. entry_ok T0 T1 (pcs ?st j)" using ent by simp
    from ph have "phase T0 T1 ?st"
    proof (cases rule: phase_cases)
      case before
      then have "before_refresh (pcs st i)" by (simp add: not_refreshed_def)
      with Returning show ?thesis by simp
    next
      case (during tok k)
      from storing_only_holder [OF during hi] during Returning show ?thesis
        by (simp add: storing_def)
    next
      case (after tok)
      then have "after_refresh tok (pcs st i)" by (simp add: refreshed_def)
      with Returning have "res = (tok, None)" by simp
      with after have "refreshed T1 tok ?st" by (simp add: refreshed_def)
      then show ?thesis unfolding phase_def by blast
    qed
    with m e buf show ?thesis by (simp add: gvt_inv_def st')
  next
    case (Done res)
    then show ?thesis by (simp add: gvt_step_def assms)
  qed
qed

lemma gvt_run_snoc: "gvt_run rt (sched @ [i]) st = gvt_step rt i (gvt_run rt sched st)"
  by (simp add: gvt_run_def)

lemma gvt_inv_init:
  assumes "tokenExpiration as < T0 + authRefreshBuffer as"
  shows "gvt_inv T0 T1 (authRefreshBuffer as) (gvt_init as w)"
  using assms
  by (simp add: gvt_inv_def gvt_init_def mutex_def phase_def not_refreshed_def)

lemma gvt_inv_run:
  assumes "tokenExpiration as < T0 + authRefreshBuffer as"
    and "list_all (calm rt T0 T1 (authRefreshBuffer as)) (events (gvt_run rt sched (gvt_init as w)))"
  shows "gvt_inv T0 T1 (authRefreshBuffer as) (gvt_run rt sched (gvt_init as w))"
  using assms(2)
proof (induction sched rule: rev_induct)
  case Nil
  show ?case using gvt_inv_init [OF assms(1)] by (simp add: gvt_run_def)
next
  case (snoc i sched)
  let ?st = "gvt_run rt sched (gvt_init as w)"
  from snoc.prems have c: "list_all (calm rt T0 T1 (authRefreshBuffer as)) (events (gvt_step rt i ?st))"
    by (simp add: gvt_run_snoc)
  obtain evs where "events (gvt_step rt i ?st) = events ?st @ evs"
    using gvt_step_events by blast
  with c have "list_all (calm rt T0 T1 (authRefreshBuffer as)) (events ?st)" by simp
  from gvt_inv_step [OF snoc.IH [OF this] c] show ?case by (simp add: gvt_run_snoc)
qed


subsection \<open>Every caller can return\<close>

lemma gvt_step_others: "j \<noteq> i \<Longrightarrow> pcs (gvt_step rt i st) j = pcs st j"
  by (simp add: gvt_step_def split: gvt_pc.splits prod.splits)

lemma gvt_step_rank:
  assumes "\<not> returned (pcs st i)" and "\<not> (waits (pcs st i) \<and> refreshMu st)"
  shows "rank (pcs (gvt_step rt i st) i) < rank (pcs st i)"
  using assms by (cases "pcs st i") (auto simp: gvt_step_def split: prod.splits)

lemma gvt_step_work:
  assumes "i < N" and "\<not> returned (pcs st i)" and "\<not> (waits (pcs st i) \<and> refreshMu st)"
  shows "work N (gvt_step rt i st) < work N st"
proof -
  have "(\<Sum>j<N. rank (pcs (gvt_step rt i st) j)) < (\<Sum>j<N. rank (pcs st j))"
  proof (rule sum_strict_mono_ex1)
    show "finite {..<N}" by simp
    show "\<forall>j\<in>{..<N}. rank (pcs (gvt_step rt i st) j) \<le> rank (pcs st j)"
      using gvt_step_rank [OF assms(2,3), of rt] gvt_step_others [of _ i rt st]
      by (metis le_less order_refl)
    show "\<exists>j\<in>{..<N}. rank (pcs (gvt_step rt i st) j) < rank (pcs st j)"
      using gvt_step_rank [OF assms(2,3), of rt] assms(1) by blast
  qed
  then show ?thesis by (simp add: work_def)
qed

lemma mutex_step: "mutex st \<Longrightarrow> mutex (gvt_step rt i st)"
proof (cases "pcs st i")
  case (Waiting now)
  assume mx: "mutex st"
  show ?thesis
  proof (cases "refreshMu st")
    case True
    with Waiting mx show ?thesis by (simp add: gvt_step_def)
  next
    case False
    show ?thesis
      by (rule mutex_acquire [OF mx False, of _ i "Locked now"])
        (simp_all add: gvt_step_def Waiting False)
  qed
next
  case (Returning res)
  assume mx: "mutex st"
  show ?thesis
    by (rule mutex_release [OF mx, of i _ "Done res"]) (simp_all add: gvt_step_def Returning)
qed (auto intro!: mutex_keep [of st _ i] simp: gvt_step_def split: prod.splits)

lemma quiet_step: "quiet N st \<Longrightarrow> i < N \<Longrightarrow> quiet N (gvt_step rt i st)"
  by (simp add: quiet_def gvt_step_others)

lemma all_calls_can_return:
  assumes "mutex st" and "quiet N st"
  shows "\<exists>sched. set sched \<subseteq> {..<N} \<and> (\<forall>i<N. returned (pcs (gvt_run rt sched st) i))"
  using assms
proof (induction "work N st" arbitrary: st rule: less_induct)
  case less
  show ?case
  proof (cases "\<forall>i<N. returned (pcs st i)")
    case True
    then have "set [] \<subseteq> {..<N} \<and> (\<forall>i<N. returned (pcs (gvt_run rt [] st) i))"
      by (simp add: gvt_run_def)
    then show ?thesis by blast
  next
    case False
    then obtain i where i: "i < N" "\<not> returned (pcs st i)" by blast
    have "\<exists>j<N. \<not> returned (pcs st j) \<and> \<not> (waits (pcs st j) \<and> refreshMu st)"
    proof (cases "waits (pcs st i) \<and> refreshMu st")
      case False
      with i show ?thesis by blast
    next
      case True
      with less.prems(1) obtain j where j: "holds_refreshMu (pcs st j)"
        by (auto simp: mutex_def)
      then have "pcs st j \<noteq> Start" by auto
      with less.prems(2) have "j < N" by (auto simp: quiet_def not_le [symmetric])
      moreover from j have "\<not> returned (pcs st j)" and "\<not> waits (pcs st j)"
        by (cases "pcs st j"; simp)+
      ultimately show ?thesis by blast
    qed
    then obtain j where j: "j < N" "\<not> returned (pcs st j)"
      "\<not> (waits (pcs st j) \<and> refreshMu st)" by blast
    let ?st = "gvt_step rt j st"
    from gvt_step_work [OF j] have "work N ?st < work N st" .
    from less.hyps [OF this mutex_step [OF less.prems(1)] quiet_step [OF less.prems(2) j(1)]]
    obtain sched where s: "set sched \<subseteq> {..<N}"
      "\<forall>i<N. returned (pcs (gvt_run rt sched ?st) i)" by blast
    have "gvt_run rt (j # sched) st = gvt_run rt sched ?st" by (simp add: gvt_run_def)
    with s j(1) have "set (j # sched) \<subseteq> {..<N} \<and>
        (\<forall>i<N. returned (pcs (gvt_run rt (j # sched) st) i))" by simp
    then show ?thesis by blast
  qed
qed

lemma mutex_quiet_run:
  assumes "set sched \<subseteq> {..<N}"
  shows "mutex (gvt_run rt sched (gvt_init as w)) \<and> quiet N (gvt_run rt sched (gvt_init as w))"
  using assms
proof (induction sched rule: rev_induct)
  case Nil
  show ?case by (simp add: gvt_run_def gvt_init_def mutex_def quiet_def)
next
  case (snoc i sched)
  then show ?case by (simp add: gvt_run_snoc mutex_step quiet_step)
qed


text \<open>
  C1, amended. Callers numbered below \<open>N\<close> run \<open>getValidToken\<close> concurrently, in
  any interleaving \<open>sched\<close>, on a store whose cached expiration is before \<open>T0\<close> plus
  the buffer. If, as far as the run has come, every clock reading lies between \<open>T0\<close>
  and \<open>T1\<close>, every credential fetch has succeeded and every refresh has succeeded
  with a token whose decoded expiration is at least the buffer after \<open>T1\<close>, then the
  refresh function has been called at most once, every caller that has returned has
  returned the token of that one call, without error, which is the token now cached;
  and the callers can be scheduled on so that each of them returns.
\<close>

theorem single_flight_refresh:
  assumes "set sched \<subseteq> {..<N}"
    and "st = gvt_run rt sched (gvt_init as w)"
    and "tokenExpiration as < T0 + authRefreshBuffer as"
    and "list_all (calm rt T0 T1 (authRefreshBuffer as)) (events st)"
  shows "length (refreshes (events st)) \<le> 1 \<and>
         (\<forall>i res. pcs st i = Done res \<longrightarrow>
            refreshes (events st) = [res] \<and> res = (token (sys_store st), None)) \<and>
         (\<exists>sched'. set sched' \<subseteq> {..<N} \<and>
            (\<forall>i<N. returned (pcs (gvt_run rt sched' st) i)))"
proof -
  from gvt_inv_run [OF assms(3)] assms(2,4)
  have "gvt_inv T0 T1 (authRefreshBuffer as) st" by simp
  then have ph: "phase T0 T1 st" by (simp add: gvt_inv_def)
  then have safe: "length (refreshes (events st)) \<le> 1 \<and>
         (\<forall>i res. pcs st i = Done res \<longrightarrow>
            refreshes (events st) = [res] \<and> res = (token (sys_store st), None))"
  proof (cases rule: phase_cases)
    case before
    have "pcs st i \<noteq> Done res" for i res
      using before by (auto simp: not_refreshed_def dest: spec [of _ i])
    with before show ?thesis by (simp add: not_refreshed_def)
  next
    case (during tok k)
    have "pcs st i \<noteq> Done res" for i res
      using during by (cases "i = k") (auto simp: storing_def dest: spec [of _ i])
    with during show ?thesis by (simp add: storing_def)
  next
    case (after tok)
    have "res = (tok, None)" if "pcs st i = Done res" for i res
      using after that by (auto simp: refreshed_def dest: spec [of _ i])
    with after show ?thesis by (simp add: refreshed_def)
  qed
  from mutex_quiet_run [OF assms(1), of rt as w] assms(2)
  have "mutex st" and "quiet N st" by simp_all
  from all_calls_can_return [OF this, of rt] safe show ?thesis by blast
qed


text \<open>
  Two callers on the store that caches \<open>''A''\<close> (expired at the clock reading 200):
  one refresh, and both return \<open>''B''\<close>. A caller that runs alone ends with what
  \<open>getValidToken\<close> returns.
\<close>

lemma demo_run:
  "gvt_run demo_runtime demo_schedule (gvt_init demo_cached 200) =
     \<lparr> sys_store = setBearerToken demo_runtime ''B'' demo_cached, sys_world = 202,
       refreshMu = False,
       pcs = (\<lambda>i. Start)(0 := Done (''B'', None), 1 := Done (''B'', None)),
       events = [Ev_Now 200, Ev_Now 201, Ev_Get (demo_identity, None),
                 Ev_Refresh (''B'', None)] \<rparr>"
  by (simp add: gvt_run_Cons gvt_run_Nil gvt_steps gvt_init_def demo_schedule_def demo_Now
      demo_cached_fields time_Before_def time_Add_def setBearerToken_def demo_extract
      fun_upd_twist)

theorem single_flight_refresh_witness:
  "set demo_schedule \<subseteq> {..<2} \<and>
   tokenExpiration demo_cached < 200 + authRefreshBuffer demo_cached \<and>
   events (gvt_run demo_runtime demo_schedule (gvt_init demo_cached 200)) =
     [Ev_Now 200, Ev_Now 201, Ev_Get (demo_identity, None), Ev_Refresh (''B'', None)] \<and>
   pcs (gvt_run demo_runtime demo_schedule (gvt_init demo_cached 200)) 0 = Done (''B'', None) \<and>
   pcs (gvt_run demo_runtime demo_schedule (gvt_init demo_cached 200)) 1 = Done (''B'', None) \<and>
   refreshes (events (gvt_run demo_runtime demo_schedule (gvt_init demo_cached 200))) =
     [(''B'', None)] \<and>
   pcs (gvt_run demo_runtime [0, 0, 0, 0, 0, 0, 0, 0] (gvt_init demo_cached 200)) 0 =
     Done (fst (getValidToken demo_runtime id demo_cached 200))"
proof -
  let ?st = "gvt_run demo_runtime demo_schedule (gvt_init demo_cached 200)"
  have s: "set demo_schedule \<subseteq> {..<2}" by (auto simp: demo_schedule_def)
  have t: "tokenExpiration demo_cached < 200 + authRefreshBuffer demo_cached"
    by (simp add: demo_cached_fields)
  have ev: "events ?st =
     [Ev_Now 200, Ev_Now 201, Ev_Get (demo_identity, None), Ev_Refresh (''B'', None)]"
    and p0: "pcs ?st 0 = Done (''B'', None)" and p1: "pcs ?st 1 = Done (''B'', None)"
    by (simp_all add: demo_run)
  have c: "list_all (calm demo_runtime 200 201 (authRefreshBuffer demo_cached)) (events ?st)"
    by (simp add: ev demo_cached_fields demo_extract)
  from single_flight_refresh [OF s refl t c] p0
  have "refreshes (events ?st) = [(''B'', None)]" by blast
  moreover
  obtain res as' w' cs where
    g: "getValidToken demo_runtime id demo_cached 200 = (res, as', w', cs)"
    by (metis prod_cases4)
  from gvt_run_alone [OF g refl, of 0]
  have "pcs (gvt_run demo_runtime [0, 0, 0, 0, 0, 0, 0, 0] (gvt_init demo_cached 200)) 0 =
     Done (fst (getValidToken demo_runtime id demo_cached 200))"
    by (simp add: g)
  ultimately show ?thesis using s t ev p0 p1 by simp
qed

text \<open>
  The claim as stated fails when the refreshed token is itself stale: the refresh
  function of \<open>demo_opaque\<close> answers a token in which no expiration is found, the
  second caller finds it stale under the lock, and the refresh function runs twice for
  two callers.
\<close>

theorem two_refreshes:
  "tokenExpiration demo_opaque < 200 + authRefreshBuffer demo_opaque \<and>
   events (gvt_run demo_runtime demo_schedule (gvt_init demo_opaque 200)) =
     [Ev_Now 200, Ev_Now 201,
      Ev_Get (demo_identity, None), Ev_Refresh (''opaque'', None),
      Ev_Get (demo_identity, None), Ev_Refresh (''opaque'', None)] \<and>
   length (refreshes (events (gvt_run demo_runtime demo_schedule (gvt_init demo_opaque 200)))) = 2"
proof -
  have f: "token demo_opaque = ''A''" "tokenExpiration demo_opaque = 120"
    "authRefreshBuffer demo_opaque = 20"
    "identityReader demo_opaque = (\<lambda>w. ((demo_identity, None), w))"
    "refreshTokenFunc demo_opaque = (\<lambda>i w. ((''opaque'', None), w))"
    by (simp_all add: demo_opaque_def setBearerToken_def demo_extract newRefreshableAuthStore_def)
  have x: "extractTokenExpiration demo_runtime ''opaque'' = 0"
    by (simp add: demo_runtime_def extractTokenExpiration_def asciiSpace_def utf8_RuneSelf_def
        time_zero_def)
  have "events (gvt_run demo_runtime demo_schedule (gvt_init demo_opaque 200)) =
     [Ev_Now 200, Ev_Now 201,
      Ev_Get (demo_identity, None), Ev_Refresh (''opaque'', None),
      Ev_Get (demo_identity, None), Ev_Refresh (''opaque'', None)]"
    by (simp add: gvt_run_def gvt_step_def gvt_init_def demo_schedule_def demo_Now f x
        setBearerToken_def getTokenAndCheckExpiryAt_def time_Before_def time_Add_def)
  then show ?thesis by (simp add: f)
qed



end
